theory Spec2Isabelle
  imports Complex_Main
begin

section \<open>The animation framework of FlexTermEditor\<close>

text \<open>
  A shallow embedding of \<^verbatim>\<open>animations.py\<close>, \<^verbatim>\<open>pop_animation.py\<close> and the toggle
  recipe of \<^verbatim>\<open>micro_animations.py\<close>.

  Conventions of the embedding.
  \<^item> Python floats are modelled as real numbers, Python ints as \<open>int\<close> (\<open>current_step\<close>, which
    starts at 0 and is only reset to 0 or incremented, as \<open>nat\<close>).
  \<^item> A \<^verbatim>\<open>threading.Timer\<close> is a handle (a natural number). Every timer an animation creates
    calls that animation's \<^verbatim>\<open>_advance\<close>; the timers that have been started and have neither
    fired nor been cancelled are kept in the field \<open>pending\<close> of the animation, and \<open>fresh\<close> is
    the next unused handle. Both fields are bookkeeping of the model; \<open>timer\<close> is the attribute
    \<^verbatim>\<open>self.timer\<close> of the source.
  \<^item> A run is a sequence of events, in any order. In \<open>run\<close>, \<open>pi_run\<close>, \<open>po_run\<close> and
    \<open>toggle_run\<close> an event is a method call or a pending timer firing, and the tick of a timer
    runs to its end before the next event. Each timer runs \<^verbatim>\<open>_advance\<close> in a thread of its own
    and \<^verbatim>\<open>_advance\<close> takes no lock, so two ticks of one animation can overlap: \<open>thread_run\<close>
    takes the statements of \<^verbatim>\<open>_advance\<close> one at a time.
  \<^item> \<^verbatim>\<open>start_time\<close> is written by \<^verbatim>\<open>start()\<close> and read nowhere; it is left out.
\<close>

subsection \<open>Values, errors and the target object\<close>

datatype error = ZeroDivisionError | KeyError | TypeError | AttributeError

datatype pyval = PInt int | PFloat real

text \<open>
  The target object is its attribute dictionary. The three other fields record what the
  animations do to the outside: every \<^verbatim>\<open>setattr\<close> on the target, every call of an
  \<^verbatim>\<open>on_update\<close> callback, and the number of calls of the completion callback a caller gave to
  a pop-out animation.
\<close>

record ui =
  attrs :: "string \<rightharpoonup> pyval"
  writes :: "(string \<times> pyval) list"
  updates :: "pyval list"
  completions :: nat

definition hasattr :: "ui \<Rightarrow> string \<Rightarrow> bool" where
  "hasattr u name = (attrs u name \<noteq> None)"

definition setattr :: "ui \<Rightarrow> string \<Rightarrow> pyval \<Rightarrow> ui" where
  "setattr u name v = u\<lparr>attrs := (attrs u)(name \<mapsto> v), writes := writes u @ [(name, v)]\<rparr>"

definition call_on_update :: "ui \<Rightarrow> pyval \<Rightarrow> ui" where
  "call_on_update u v = u\<lparr>updates := updates u @ [v]\<rparr>"

subsection \<open>AnimationState and its subclasses\<close>

text \<open>
  The subclasses of \<^verbatim>\<open>AnimationState\<close> differ in their extra attributes and in \<^verbatim>\<open>on_frame\<close>:
  \<open>Fade start_value end_value\<close>, \<open>Scale start_scale end_scale\<close>, \<open>Blink blink_count\<close>;
  \<open>Plain\<close> is the base class itself. \<open>target_object\<close> is the identity of the target (what Python's
  \<^verbatim>\<open>id\<close> returns); the functions of one animation take the state of that object, a \<open>ui\<close>, as
  an argument. The base class has no target: its \<open>target_object\<close> and \<open>property_name\<close> are
  never read.
\<close>

datatype anim_class = Plain | Fade real real | Scale real real | Blink int

record animation =
  target_object :: nat
  animating :: bool
  current_step :: nat
  max_steps :: int
  duration :: real
  timer :: "nat option"
  pending :: "nat list"
  fresh :: nat
  property_name :: string
  on_update :: bool
  cls :: anim_class

definition AnimationState :: animation where
  "AnimationState =
     \<lparr>target_object = 0, animating = False, current_step = 0, max_steps = 10, duration = 0.3, timer = None,
      pending = [], fresh = 0, property_name = [], on_update = False, cls = Plain\<rparr>"

definition FadeAnimation :: "nat \<Rightarrow> string \<Rightarrow> real \<Rightarrow> real \<Rightarrow> bool \<Rightarrow> animation" where
  "FadeAnimation obj name start_value end_value upd =
     AnimationState\<lparr>target_object := obj, property_name := name, on_update := upd, cls := Fade start_value end_value\<rparr>"

definition ScaleAnimation :: "nat \<Rightarrow> string \<Rightarrow> real \<Rightarrow> real \<Rightarrow> bool \<Rightarrow> animation" where
  "ScaleAnimation obj name start_scale end_scale upd =
     AnimationState\<lparr>target_object := obj, property_name := name, on_update := upd, cls := Scale start_scale end_scale\<rparr>"

definition BlinkAnimation :: "nat \<Rightarrow> string \<Rightarrow> int \<Rightarrow> bool \<Rightarrow> animation" where
  "BlinkAnimation obj name blink_count upd =
     AnimationState\<lparr>target_object := obj, property_name := name, on_update := upd, cls := Blink blink_count,
       max_steps := blink_count * 2\<rparr>"

subsection \<open>Progress and easing\<close>

text \<open>
  The division of \<^verbatim>\<open>get_progress\<close> is reached only when \<open>current_step < max_steps\<close>, so its
  divisor is positive.
\<close>

definition get_progress :: "animation \<Rightarrow> real" where
  "get_progress a =
     (if int (current_step a) \<ge> max_steps a then 1
      else real (current_step a) / real_of_int (max_steps a))"

text \<open>The body of \<^verbatim>\<open>get_eased_progress\<close>, as a function of the linear progress.\<close>

definition ease :: "string \<Rightarrow> real \<Rightarrow> real" where
  "ease easing_function linear_progress =
     (if easing_function = ''linear'' then linear_progress
      else if easing_function = ''ease_in_quad'' then linear_progress * linear_progress
      else if easing_function = ''ease_out_quad'' then - (linear_progress * (linear_progress - 2))
      else if easing_function = ''ease_in_out_quad'' then
        (let p = linear_progress * 2 in
         if p < 1 then 0.5 * p * p
         else (let p = p - 1 in - 0.5 * (p * (p - 2) - 1)))
      else if easing_function = ''ease_out_bounce'' then
        (if linear_progress < 1 / 2.75 then 7.5625 * linear_progress * linear_progress
         else if linear_progress < 2 / 2.75 then
           (let p = linear_progress - 1.5 / 2.75 in 7.5625 * p * p + 0.75)
         else if linear_progress < 2.5 / 2.75 then
           (let p = linear_progress - 2.25 / 2.75 in 7.5625 * p * p + 0.9375)
         else
           (let p = linear_progress - 2.625 / 2.75 in 7.5625 * p * p + 0.984375))
      else if easing_function = ''ease_in_elastic'' then
        (if linear_progress = 0 \<or> linear_progress = 1 then linear_progress
         else (let p = linear_progress - 1 in
               - (2 powr (10 * p) * sin ((p * 40 - 3) * pi / 6))))
      else if easing_function = ''ease_out_elastic'' then
        (if linear_progress = 0 \<or> linear_progress = 1 then linear_progress
         else 2 powr (- 10 * linear_progress) * sin ((linear_progress * 40 - 3) * pi / 6) + 1)
      else linear_progress)"

definition get_eased_progress :: "animation \<Rightarrow> string \<Rightarrow> real" where
  "get_eased_progress a easing_function = ease easing_function (get_progress a)"

definition easing_kinds :: "string list" where
  "easing_kinds =
     [''linear'', ''ease_in_quad'', ''ease_out_quad'', ''ease_in_out_quad'', ''ease_out_bounce'',
      ''ease_in_elastic'', ''ease_out_elastic'']"

subsection \<open>The life cycle of an animation\<close>

text \<open>
  \<^verbatim>\<open>schedule_next_frame\<close> divides \<open>duration\<close> by \<open>max_steps\<close> (the delay of the timer, which
  the model does not keep), creates a timer, stores it in \<open>timer\<close> and starts it. It does not
  look at the timer that \<open>timer\<close> held before.
\<close>

definition schedule_next_frame :: "animation \<Rightarrow> error + animation" where
  "schedule_next_frame a =
     (if \<not> animating a then Inr a
      else if max_steps a = 0 then Inl ZeroDivisionError
      else Inr (a\<lparr>timer := Some (fresh a), pending := pending a @ [fresh a],
                  fresh := Suc (fresh a)\<rparr>))"

definition start :: "animation \<Rightarrow> error + animation" where
  "start a = schedule_next_frame (a\<lparr>animating := True, current_step := 0\<rparr>)"

definition stop :: "animation \<Rightarrow> animation" where
  "stop a =
     (let a = a\<lparr>animating := False\<rparr> in
      case timer a of
        None \<Rightarrow> a
      | Some t \<Rightarrow> a\<lparr>pending := removeAll t (pending a), timer := None\<rparr>)"

text \<open>
  Every \<^verbatim>\<open>on_frame\<close> of a subclass ends the same way: it sets the attribute when the target
  has it, and calls \<^verbatim>\<open>on_update\<close> when there is one.
\<close>

definition write_value :: "animation \<Rightarrow> pyval \<Rightarrow> ui \<Rightarrow> ui" where
  "write_value a v u =
     (let u = (if hasattr u (property_name a) then setattr u (property_name a) v else u)
      in if on_update a then call_on_update u v else u)"

definition on_frame :: "animation \<Rightarrow> ui \<Rightarrow> ui" where
  "on_frame a u =
     (case cls a of
        Plain \<Rightarrow> u
      | Fade start_value end_value \<Rightarrow>
          (let progress = get_eased_progress a ''ease_out_quad'';
               current_value = start_value + (end_value - start_value) * progress
           in write_value a (PFloat current_value) u)
      | Scale start_scale end_scale \<Rightarrow>
          (let progress = get_eased_progress a ''ease_out_elastic'';
               current_scale = start_scale + (end_scale - start_scale) * progress
           in write_value a (PFloat current_scale) u)
      | Blink blink_count \<Rightarrow>
          (let v = (if current_step a mod 2 = 0 then 1 else 0)
           in write_value a (PInt v) u))"

definition on_complete :: "animation \<times> ui \<Rightarrow> animation \<times> ui" where
  "on_complete = (\<lambda>(a, u). (a\<lparr>animating := False\<rparr>, u))"

text \<open>
  \<^verbatim>\<open>_advance\<close>, with the \<^verbatim>\<open>on_complete\<close> it calls as a parameter: a pop-out animation
  replaces the \<^verbatim>\<open>on_complete\<close> attribute of its fade animation.
\<close>

definition advance_with ::
  "(animation \<times> ui \<Rightarrow> animation \<times> ui) \<Rightarrow> animation \<Rightarrow> ui \<Rightarrow> error + animation \<times> ui" where
  "advance_with hook a u =
     (if \<not> animating a then Inr (a, u)
      else
        (let a = a\<lparr>current_step := Suc (current_step a)\<rparr> in
         if int (current_step a) \<ge> max_steps a then Inr (hook (a, u))
         else
           (let u = on_frame a u in
            case schedule_next_frame a of
              Inl e \<Rightarrow> Inl e
            | Inr a \<Rightarrow> Inr (a, u))))"

definition advance :: "animation \<Rightarrow> ui \<Rightarrow> error + animation \<times> ui" where
  "advance = advance_with on_complete"

text \<open>
  The events of one animation: a call of \<^verbatim>\<open>start()\<close>, a call of \<^verbatim>\<open>stop()\<close>, and the timer
  with handle \<open>t\<close> firing. A timer that is not pending (it fired before, was cancelled, or was
  never created) does not run.
\<close>

datatype event = Start | Stop | Fire nat

definition fire_with ::
  "(animation \<times> ui \<Rightarrow> animation \<times> ui) \<Rightarrow> nat \<Rightarrow> animation \<Rightarrow> ui \<Rightarrow> error + animation \<times> ui" where
  "fire_with hook t a u =
     (if t \<in> set (pending a) then advance_with hook (a\<lparr>pending := removeAll t (pending a)\<rparr>) u
      else Inr (a, u))"

fun step :: "event \<Rightarrow> animation \<times> ui \<Rightarrow> error + animation \<times> ui" where
  "step Start (a, u) = (case start a of Inl e \<Rightarrow> Inl e | Inr a' \<Rightarrow> Inr (a', u))"
| "step Stop (a, u) = Inr (stop a, u)"
| "step (Fire t) (a, u) = fire_with on_complete t a u"

fun run :: "event list \<Rightarrow> animation \<times> ui \<Rightarrow> error + animation \<times> ui" where
  "run [] s = Inr s"
| "run (e # es) s = (case step e s of Inl x \<Rightarrow> Inl x | Inr s' \<Rightarrow> run es s')"


text \<open>
  The statements of \<^verbatim>\<open>_advance\<close>, for ticks that overlap: the guard on \<open>animating\<close>, the
  increment of \<open>current_step\<close>, the test for completion with the call of \<^verbatim>\<open>on_complete\<close>,
  the call of \<^verbatim>\<open>on_frame\<close>, and the call of \<^verbatim>\<open>schedule_next_frame\<close>. \<open>stmt\<close> runs one
  statement and gives the statement to run next, if any.
\<close>

datatype pc = AtGuard | AtIncrement | AtCheck | AtFrame | AtSchedule

definition stmt ::
  "(animation \<times> ui \<Rightarrow> animation \<times> ui) \<Rightarrow> pc \<Rightarrow> animation \<Rightarrow> ui
     \<Rightarrow> error + pc option \<times> animation \<times> ui" where
  "stmt hook pc a u =
     (case pc of
        AtGuard \<Rightarrow> Inr (if \<not> animating a then None else Some AtIncrement, a, u)
      | AtIncrement \<Rightarrow> Inr (Some AtCheck, a\<lparr>current_step := Suc (current_step a)\<rparr>, u)
      | AtCheck \<Rightarrow>
          (if int (current_step a) \<ge> max_steps a
           then (let (a', u') = hook (a, u) in Inr (None, a', u'))
           else Inr (Some AtFrame, a, u))
      | AtFrame \<Rightarrow> Inr (Some AtSchedule, a, on_frame a u)
      | AtSchedule \<Rightarrow>
          (case schedule_next_frame a of
             Inl e \<Rightarrow> Inl e
           | Inr a' \<Rightarrow> Inr (None, a', u)))"

text \<open>
  \<open>Enters t\<close>: the pending timer \<open>t\<close> fires and its thread enters \<^verbatim>\<open>_advance\<close>; \<open>Runs i\<close>: the
  thread that entered as number \<open>i\<close> runs its next statement. The threads are kept by the
  statement they are at, \<open>None\<close> once they have returned.
\<close>

datatype thread_event = Enters nat | Runs nat

fun thread_step ::
  "(animation \<times> ui \<Rightarrow> animation \<times> ui) \<Rightarrow> thread_event
     \<Rightarrow> animation \<times> ui \<times> pc option list \<Rightarrow> error + animation \<times> ui \<times> pc option list" where
  "thread_step hook (Enters t) (a, u, ths) =
     (if t \<in> set (pending a)
      then Inr (a\<lparr>pending := removeAll t (pending a)\<rparr>, u, ths @ [Some AtGuard])
      else Inr (a, u, ths))"
| "thread_step hook (Runs i) (a, u, ths) =
     (if i < length ths then
        (case ths ! i of
           None \<Rightarrow> Inr (a, u, ths)
         | Some pc \<Rightarrow>
             (case stmt hook pc a u of
                Inl e \<Rightarrow> Inl e
              | Inr (pc', a', u') \<Rightarrow> Inr (a', u', ths[i := pc'])))
      else Inr (a, u, ths))"

fun thread_run ::
  "(animation \<times> ui \<Rightarrow> animation \<times> ui) \<Rightarrow> thread_event list
     \<Rightarrow> animation \<times> ui \<times> pc option list \<Rightarrow> error + animation \<times> ui \<times> pc option list" where
  "thread_run hook [] s = Inr s"
| "thread_run hook (e # es) s =
     (case thread_step hook e s of Inl x \<Rightarrow> Inl x | Inr s' \<Rightarrow> thread_run hook es s')"

subsection \<open>Pop-in and pop-out animations\<close>

text \<open>
  A pop animation owns a fade and a scale animation on one target. The attribute \<open>easing\<close> is
  stored by the constructor. \<open>None\<close> in \<open>fade_animation\<close> or \<open>scale_animation\<close> is Python's
  \<^verbatim>\<open>None\<close>; an animation object is always true in a Python condition.
\<close>

record pop_in =
  pi_target_object :: nat
  pi_opacity_property :: string
  pi_scale_property :: string
  pi_on_update :: bool
  pi_start_scale :: real
  pi_end_scale :: real
  pi_duration :: real
  pi_easing :: string
  pi_fade_animation :: "animation option"
  pi_scale_animation :: "animation option"

definition PopInAnimation ::
  "nat \<Rightarrow> string \<Rightarrow> string \<Rightarrow> bool \<Rightarrow> real \<Rightarrow> real \<Rightarrow> real \<Rightarrow> string \<Rightarrow> pop_in" where
  "PopInAnimation obj opacity_property scale_property upd start_scale end_scale dur easing =
     \<lparr>pi_target_object = obj, pi_opacity_property = opacity_property,
      pi_scale_property = scale_property, pi_on_update = upd, pi_start_scale = start_scale,
      pi_end_scale = end_scale, pi_duration = dur, pi_easing = easing,
      pi_fade_animation = None, pi_scale_animation = None\<rparr>"

definition pi_create_animations :: "pop_in \<Rightarrow> pop_in" where
  "pi_create_animations p =
     p\<lparr>pi_fade_animation :=
         Some ((FadeAnimation (pi_target_object p) (pi_opacity_property p) 0 1 (pi_on_update p))
                 \<lparr>duration := pi_duration p\<rparr>),
       pi_scale_animation :=
         Some ((ScaleAnimation (pi_target_object p) (pi_scale_property p) (pi_start_scale p)
                  (pi_end_scale p) (pi_on_update p))
                 \<lparr>duration := pi_duration p * 0.8\<rparr>)\<rparr>"

text \<open>Both pop animations start their two children the same way.\<close>

definition start_both ::
  "animation option \<Rightarrow> animation option \<Rightarrow> error + animation \<times> animation" where
  "start_both fade scale =
     (case fade of
        None \<Rightarrow> Inl AttributeError
      | Some f \<Rightarrow>
          (case start f of
             Inl e \<Rightarrow> Inl e
           | Inr f' \<Rightarrow>
               (case scale of
                  None \<Rightarrow> Inl AttributeError
                | Some s \<Rightarrow>
                    (case start s of
                       Inl e \<Rightarrow> Inl e
                     | Inr s' \<Rightarrow> Inr (f', s')))))"

definition set_if_present :: "string \<Rightarrow> pyval \<Rightarrow> ui \<Rightarrow> ui" where
  "set_if_present name v u = (if hasattr u name then setattr u name v else u)"

definition pi_start :: "pop_in \<Rightarrow> ui \<Rightarrow> error + pop_in \<times> ui" where
  "pi_start p u =
     (let p = (if pi_fade_animation p = None \<or> pi_scale_animation p = None
               then pi_create_animations p else p);
          u = set_if_present (pi_opacity_property p) (PFloat 0.0) u;
          u = set_if_present (pi_scale_property p) (PFloat 1.1) u
      in case start_both (pi_fade_animation p) (pi_scale_animation p) of
           Inl e \<Rightarrow> Inl e
         | Inr (f, s) \<Rightarrow> Inr (p\<lparr>pi_fade_animation := Some f, pi_scale_animation := Some s\<rparr>, u))"

definition pi_stop :: "pop_in \<Rightarrow> pop_in" where
  "pi_stop p =
     p\<lparr>pi_fade_animation := map_option stop (pi_fade_animation p),
       pi_scale_animation := map_option stop (pi_scale_animation p)\<rparr>"

text \<open>
  The events of a pop animation: its own \<^verbatim>\<open>start()\<close> and \<^verbatim>\<open>stop()\<close>, and a timer of the
  fade or of the scale animation firing, which calls \<^verbatim>\<open>_advance\<close> of that child.
\<close>

datatype pop_event = PStart | PStop | FireFade nat | FireScale nat

definition fire_child ::
  "(animation \<times> ui \<Rightarrow> animation \<times> ui) \<Rightarrow> nat \<Rightarrow> animation option \<Rightarrow> ui
     \<Rightarrow> error + animation option \<times> ui" where
  "fire_child hook t child u =
     (case child of
        None \<Rightarrow> Inr (None, u)
      | Some a \<Rightarrow>
          (case fire_with hook t a u of
             Inl e \<Rightarrow> Inl e
           | Inr (a', u') \<Rightarrow> Inr (Some a', u')))"

fun pi_step :: "pop_event \<Rightarrow> pop_in \<times> ui \<Rightarrow> error + pop_in \<times> ui" where
  "pi_step PStart (p, u) = pi_start p u"
| "pi_step PStop (p, u) = Inr (pi_stop p, u)"
| "pi_step (FireFade t) (p, u) =
     (case fire_child on_complete t (pi_fade_animation p) u of
        Inl e \<Rightarrow> Inl e
      | Inr (c, u') \<Rightarrow> Inr (p\<lparr>pi_fade_animation := c\<rparr>, u'))"
| "pi_step (FireScale t) (p, u) =
     (case fire_child on_complete t (pi_scale_animation p) u of
        Inl e \<Rightarrow> Inl e
      | Inr (c, u') \<Rightarrow> Inr (p\<lparr>pi_scale_animation := c\<rparr>, u'))"

fun pi_run :: "pop_event list \<Rightarrow> pop_in \<times> ui \<Rightarrow> error + pop_in \<times> ui" where
  "pi_run [] s = Inr s"
| "pi_run (e # es) s = (case pi_step e s of Inl x \<Rightarrow> Inl x | Inr s' \<Rightarrow> pi_run es s')"

record pop_out =
  po_target_object :: nat
  po_opacity_property :: string
  po_scale_property :: string
  po_on_update :: bool
  po_on_complete :: bool
  po_start_scale :: real
  po_end_scale :: real
  po_duration :: real
  po_easing :: string
  po_fade_animation :: "animation option"
  po_scale_animation :: "animation option"

definition PopOutAnimation ::
  "nat \<Rightarrow> string \<Rightarrow> string \<Rightarrow> bool \<Rightarrow> bool \<Rightarrow> real \<Rightarrow> real \<Rightarrow> real \<Rightarrow> string \<Rightarrow> pop_out" where
  "PopOutAnimation obj opacity_property scale_property upd cb start_scale end_scale dur easing =
     \<lparr>po_target_object = obj, po_opacity_property = opacity_property,
      po_scale_property = scale_property, po_on_update = upd, po_on_complete = cb,
      po_start_scale = start_scale, po_end_scale = end_scale, po_duration = dur,
      po_easing = easing, po_fade_animation = None, po_scale_animation = None\<rparr>"

text \<open>
  \<^verbatim>\<open>create_animations\<close> of a pop-out animation also replaces \<^verbatim>\<open>on_complete\<close> of the new fade
  animation by \<^verbatim>\<open>completion_wrapper\<close>, which calls the \<^verbatim>\<open>on_complete\<close> the fade animation
  had and then the callback of the pop-out animation, when there is one. A fade animation of a
  pop-out animation exists only through \<^verbatim>\<open>create_animations\<close>, so its timers always complete
  through the wrapper: that is \<open>po_step\<close> below.
\<close>

definition po_create_animations :: "pop_out \<Rightarrow> pop_out" where
  "po_create_animations p =
     p\<lparr>po_fade_animation :=
         Some ((FadeAnimation (po_target_object p) (po_opacity_property p) 1 0 (po_on_update p))
                 \<lparr>duration := po_duration p\<rparr>),
       po_scale_animation :=
         Some ((ScaleAnimation (po_target_object p) (po_scale_property p) (po_start_scale p)
                  (po_end_scale p) (po_on_update p))
                 \<lparr>duration := po_duration p * 0.7\<rparr>)\<rparr>"

definition completion_wrapper :: "pop_out \<Rightarrow> animation \<times> ui \<Rightarrow> animation \<times> ui" where
  "completion_wrapper p s =
     (let (a, u) = on_complete s
      in if po_on_complete p then (a, u\<lparr>completions := Suc (completions u)\<rparr>) else (a, u))"

definition po_start :: "pop_out \<Rightarrow> ui \<Rightarrow> error + pop_out \<times> ui" where
  "po_start p u =
     (let p = (if po_fade_animation p = None \<or> po_scale_animation p = None
               then po_create_animations p else p);
          u = set_if_present (po_opacity_property p) (PFloat 1.0) u;
          u = set_if_present (po_scale_property p) (PFloat 1.0) u
      in case start_both (po_fade_animation p) (po_scale_animation p) of
           Inl e \<Rightarrow> Inl e
         | Inr (f, s) \<Rightarrow> Inr (p\<lparr>po_fade_animation := Some f, po_scale_animation := Some s\<rparr>, u))"

definition po_stop :: "pop_out \<Rightarrow> pop_out" where
  "po_stop p =
     p\<lparr>po_fade_animation := map_option stop (po_fade_animation p),
       po_scale_animation := map_option stop (po_scale_animation p)\<rparr>"

fun po_step :: "pop_event \<Rightarrow> pop_out \<times> ui \<Rightarrow> error + pop_out \<times> ui" where
  "po_step PStart (p, u) = po_start p u"
| "po_step PStop (p, u) = Inr (po_stop p, u)"
| "po_step (FireFade t) (p, u) =
     (case fire_child (completion_wrapper p) t (po_fade_animation p) u of
        Inl e \<Rightarrow> Inl e
      | Inr (c, u') \<Rightarrow> Inr (p\<lparr>po_fade_animation := c\<rparr>, u'))"
| "po_step (FireScale t) (p, u) =
     (case fire_child on_complete t (po_scale_animation p) u of
        Inl e \<Rightarrow> Inl e
      | Inr (c, u') \<Rightarrow> Inr (p\<lparr>po_scale_animation := c\<rparr>, u'))"

fun po_run :: "pop_event list \<Rightarrow> pop_out \<times> ui \<Rightarrow> error + pop_out \<times> ui" where
  "po_run [] s = Inr s"
| "po_run (e # es) s = (case po_step e s of Inl x \<Rightarrow> Inl x | Inr s' \<Rightarrow> po_run es s')"


text \<open>
  For the statements about a pop-out animation: the events that are timers firing, whether
  the fade animation is animating, the handle its next timer will get, and what holds of a
  pop-out animation that was built with a completion callback, whatever happened to it since:
  the children exist together and have the default \<open>max_steps\<close>.
\<close>

fun is_timer :: "pop_event \<Rightarrow> bool" where
  "is_timer (FireFade t) = True"
| "is_timer (FireScale t) = True"
| "is_timer PStart = False"
| "is_timer PStop = False"

definition fade_animating :: "pop_out \<Rightarrow> bool" where
  "fade_animating p = (case po_fade_animation p of None \<Rightarrow> False | Some f \<Rightarrow> animating f)"

definition next_fade_timer :: "pop_out \<Rightarrow> nat" where
  "next_fade_timer p = (case po_fade_animation p of None \<Rightarrow> 0 | Some f \<Rightarrow> fresh f)"

definition po_inv :: "pop_out \<Rightarrow> bool" where
  "po_inv p =
     (po_on_complete p \<and>
      (case po_fade_animation p of
         None \<Rightarrow> po_scale_animation p = None
       | Some f \<Rightarrow>
           max_steps f = 10 \<and>
           (case po_scale_animation p of None \<Rightarrow> False | Some s \<Rightarrow> max_steps s = 10)))"

text \<open>The callbacks made so far, plus one for a cycle that is under way.\<close>

definition tally :: "pop_out \<Rightarrow> ui \<Rightarrow> nat" where
  "tally p u = completions u + (if fade_animating p then 1 else 0)"


subsection \<open>The animation manager and the toggle recipe\<close>

text \<open>
  The animation objects live in a heap, by reference; the registry of the manager maps a name
  to a reference or to a factory. The factories that the toggle recipe calls are
  \<^verbatim>\<open>lambda obj: FadeAnimation(obj, property, start, end, on_update=...)\<close>, kept as
  \<open>FadeFactory property start end\<close>. \<open>objs\<close> gives the state of every target object.
\<close>

datatype factory = FadeFactory string real real

datatype entry = Factory factory | Instance nat

record world =
  animations :: "string \<rightharpoonup> entry"
  heap :: "nat \<Rightarrow> animation"
  next_ref :: nat
  objs :: "nat \<Rightarrow> ui"

definition new_object :: "animation \<Rightarrow> world \<Rightarrow> nat \<times> world" where
  "new_object a w = (next_ref w, w\<lparr>heap := (heap w)(next_ref w := a), next_ref := Suc (next_ref w)\<rparr>)"

definition call_factory :: "factory \<Rightarrow> nat \<Rightarrow> animation" where
  "call_factory f obj = (case f of FadeFactory name s e \<Rightarrow> FadeAnimation obj name s e True)"

definition add_animation :: "string \<Rightarrow> entry \<Rightarrow> world \<Rightarrow> world" where
  "add_animation name animation w = w\<lparr>animations := (animations w)(name \<mapsto> animation)\<rparr>"

definition start_animation :: "string \<Rightarrow> world \<Rightarrow> error + bool \<times> world" where
  "start_animation name w =
     (case animations w name of
        None \<Rightarrow> Inr (False, w)
      | Some (Factory f) \<Rightarrow> Inl AttributeError
      | Some (Instance r) \<Rightarrow>
          (case start (heap w r) of
             Inl e \<Rightarrow> Inl e
           | Inr a \<Rightarrow> Inr (True, w\<lparr>heap := (heap w)(r := a)\<rparr>)))"

definition stop_animation :: "string \<Rightarrow> world \<Rightarrow> error + bool \<times> world" where
  "stop_animation name w =
     (case animations w name of
        None \<Rightarrow> Inr (False, w)
      | Some (Factory f) \<Rightarrow> Inl AttributeError
      | Some (Instance r) \<Rightarrow> Inr (True, w\<lparr>heap := (heap w)(r := stop (heap w r))\<rparr>))"

definition remove_animation :: "string \<Rightarrow> world \<Rightarrow> error + bool \<times> world" where
  "remove_animation name w =
     (case animations w name of
        None \<Rightarrow> Inr (False, w)
      | Some (Factory f) \<Rightarrow> Inl AttributeError
      | Some (Instance r) \<Rightarrow>
          Inr (True, w\<lparr>heap := (heap w)(r := stop (heap w r)),
                        animations := (animations w)(name := None)\<rparr>))"

text \<open>A timer of the animation object \<open>r\<close> fires.\<close>

definition timer_fires :: "nat \<Rightarrow> nat \<Rightarrow> world \<Rightarrow> error + world" where
  "timer_fires r t w =
     (let a = heap w r in
      case fire_with on_complete t a (objs w (target_object a)) of
        Inl e \<Rightarrow> Inl e
      | Inr (a', u') \<Rightarrow>
          Inr (w\<lparr>heap := (heap w)(r := a'), objs := (objs w)(target_object a := u')\<rparr>))"

text \<open>Python's \<^verbatim>\<open>str\<close> of a natural number, for the names built from \<^verbatim>\<open>id(obj)\<close>.\<close>

fun str_of_nat :: "nat \<Rightarrow> string" where
  "str_of_nat n =
     (if n < 10 then [char_of (48 + n)]
      else str_of_nat (n div 10) @ [char_of (48 + n mod 10)])"

declare str_of_nat.simps [simp del]

text \<open>The two registrations of \<^verbatim>\<open>register_animations\<close> that the toggle recipe reads.\<close>

definition register_toggle_animations :: "world \<Rightarrow> world" where
  "register_toggle_animations w =
     add_animation ''toggle_off'' (Factory (FadeFactory ''highlight'' 1.0 0.0))
       (add_animation ''toggle_on'' (Factory (FadeFactory ''highlight'' 0.0 1.0)) w)"

definition animate_toggle :: "nat \<Rightarrow> bool \<Rightarrow> world \<Rightarrow> error + world" where
  "animate_toggle toggle_obj state w =
     (let animation_name = ''toggle_'' @ str_of_nat toggle_obj;
          base_animation = (if state then ''toggle_on'' else ''toggle_off'');
          created =
            (if animations w animation_name = None then
               (case animations w base_animation of
                  None \<Rightarrow> Inl KeyError
                | Some (Instance r) \<Rightarrow> Inl TypeError
                | Some (Factory f) \<Rightarrow>
                    (let (r, w') = new_object (call_factory f toggle_obj) w
                     in Inr (add_animation animation_name (Instance r) w')))
             else Inr w)
      in case created of
           Inl e \<Rightarrow> Inl e
         | Inr w' \<Rightarrow> map_sum id snd (start_animation animation_name w'))"

text \<open>What happens around a toggle: a call of the recipe, or a timer of an animation firing.\<close>

datatype toggle_event = Toggle nat bool | TimerFires nat nat

fun toggle_step :: "toggle_event \<Rightarrow> world \<Rightarrow> error + world" where
  "toggle_step (Toggle obj state) w = animate_toggle obj state w"
| "toggle_step (TimerFires r t) w = timer_fires r t w"

fun toggle_run :: "toggle_event list \<Rightarrow> world \<Rightarrow> error + world" where
  "toggle_run [] w = Inr w"
| "toggle_run (e # es) w = (case toggle_step e w of Inl x \<Rightarrow> Inl x | Inr w' \<Rightarrow> toggle_run es w')"


text \<open>
  The registry as \<^verbatim>\<open>register_animations\<close> and the recipe leave it: the two factories are
  registered, and a name of the recipe is free or holds an animation object that exists and
  can be started.
\<close>

definition entry_ok :: "world \<Rightarrow> entry option \<Rightarrow> bool" where
  "entry_ok w e =
     (case e of
        None \<Rightarrow> True
      | Some (Factory f) \<Rightarrow> False
      | Some (Instance r) \<Rightarrow> r < next_ref w \<and> max_steps (heap w r) \<noteq> 0)"

definition toggles_registered :: "world \<Rightarrow> bool" where
  "toggles_registered w =
     (animations w ''toggle_on'' = Some (Factory (FadeFactory ''highlight'' 0 1)) \<and>
      animations w ''toggle_off'' = Some (Factory (FadeFactory ''highlight'' 1 0)) \<and>
      (\<forall>obj. entry_ok w (animations w (''toggle_'' @ str_of_nat obj))))"

text \<open>
  What the first call of the recipe for \<open>obj\<close> sets up and every later event keeps: the name of
  \<open>obj\<close> holds the animation object \<open>r\<close>, a fade of \<open>''highlight''\<close> from 0 to 1 on \<open>obj\<close>, and no
  animation object created from reference \<open>n\<close> on has \<open>obj\<close> as its target.
\<close>

definition toggled :: "nat \<Rightarrow> nat \<Rightarrow> nat \<Rightarrow> world \<Rightarrow> bool" where
  "toggled obj r n w =
     (toggles_registered w \<and>
      animations w (''toggle_'' @ str_of_nat obj) = Some (Instance r) \<and>
      cls (heap w r) = Fade 0 1 \<and> property_name (heap w r) = ''highlight'' \<and>
      target_object (heap w r) = obj \<and> n \<le> next_ref w \<and>
      (\<forall>r'. n \<le> r' \<and> r' < next_ref w \<longrightarrow> target_object (heap w r') \<noteq> obj))"

section \<open>Easing\<close>

text \<open>
  C7. For each of the seven supported easing kinds, the easing function returns exactly 0 at
  linear progress 0 and exactly 1 at linear progress 1.
\<close>

theorem easing_endpoints: "list_all (\<lambda>k. ease k 0 = 0 \<and> ease k 1 = 1) easing_kinds"
  by (simp add: easing_kinds_def ease_def)

text \<open>
  C8. For an easing name that is not one of the seven kinds, \<^verbatim>\<open>get_eased_progress\<close> returns
  the linear progress unchanged; it has no failing branch. The name \<open>''elastic_out''\<close>, which
  the search-navigation recipe asks for, is such a name.
\<close>

theorem unknown_easing_is_linear:
  assumes "easing_function \<notin> set easing_kinds"
  shows "ease easing_function t = t \<and> get_eased_progress a easing_function = get_progress a"
  using assms by (simp add: easing_kinds_def ease_def get_eased_progress_def)

theorem unknown_easing_is_linear_witness:
  "''elastic_out'' \<notin> set easing_kinds
   \<and> ease ''elastic_out'' 0.3 = 0.3
   \<and> get_eased_progress (AnimationState\<lparr>duration := 0.4, current_step := 3\<rparr>) ''elastic_out'' = 0.3"
proof -
  have unknown: "''elastic_out'' \<notin> set easing_kinds"
    by (simp add: easing_kinds_def)
  have "get_progress (AnimationState\<lparr>duration := 0.4, current_step := 3\<rparr>) = 0.3"
    by (simp add: get_progress_def AnimationState_def)
  with unknown unknown_easing_is_linear [OF unknown, of "0.3" "AnimationState\<lparr>duration := 0.4, current_step := 3\<rparr>"]
  show ?thesis by simp
qed

section \<open>One animation\<close>

subsection \<open>What one call does\<close>

lemma start_ok:
  "max_steps a \<noteq> 0 \<Longrightarrow>
   start a = Inr (a\<lparr>animating := True, current_step := 0, timer := Some (fresh a),
                     pending := pending a @ [fresh a], fresh := Suc (fresh a)\<rparr>)"
  by (simp add: start_def schedule_next_frame_def)

lemma stop_fields:
  "stop a = a\<lparr>animating := False, timer := None,
               pending := (case timer a of None \<Rightarrow> pending a | Some t \<Rightarrow> removeAll t (pending a))\<rparr>"
  by (simp add: stop_def split: option.split)

lemma on_frame_cong:
  assumes "cls a = cls b" "current_step a = current_step b" "max_steps a = max_steps b"
    "property_name a = property_name b" "on_update a = on_update b"
  shows "on_frame a u = on_frame b u"
  using assms
  by (simp add: on_frame_def write_value_def get_eased_progress_def get_progress_def
        split: anim_class.split)

lemma fire_with_idle:
  "\<not> animating a \<Longrightarrow> fire_with hook t a u = Inr (a\<lparr>pending := removeAll t (pending a)\<rparr>, u)"
  by (simp add: fire_with_def advance_with_def)

lemma fire_with_not_pending: "t \<notin> set (pending a) \<Longrightarrow> fire_with hook t a u = Inr (a, u)"
  by (simp add: fire_with_def)

lemma fire_with_frame:
  assumes "animating a" "t \<in> set (pending a)" "int (Suc (current_step a)) < max_steps a"
  shows "fire_with hook t a u =
           Inr (a\<lparr>pending := removeAll t (pending a) @ [fresh a],
                  current_step := Suc (current_step a), timer := Some (fresh a),
                  fresh := Suc (fresh a)\<rparr>,
                on_frame (a\<lparr>current_step := Suc (current_step a)\<rparr>) u)"
  using assms
  by (simp add: fire_with_def advance_with_def schedule_next_frame_def Let_def on_frame_cong)

lemma fire_with_complete:
  assumes "animating a" "t \<in> set (pending a)" "max_steps a \<le> int (Suc (current_step a))"
  shows "fire_with hook t a u =
           Inr (hook (a\<lparr>pending := removeAll t (pending a),
                        current_step := Suc (current_step a)\<rparr>, u))"
  using assms by (simp add: fire_with_def advance_with_def Let_def)

text \<open>The four cases of a timer firing.\<close>

lemma fire_with_cases:
  obtains (absent) "t \<notin> set (pending a)" "fire_with hook t a u = Inr (a, u)"
  | (idle) "\<not> animating a"
      "fire_with hook t a u = Inr (a\<lparr>pending := removeAll t (pending a)\<rparr>, u)"
  | (frame) "animating a" "t \<in> set (pending a)" "int (Suc (current_step a)) < max_steps a"
      "fire_with hook t a u =
         Inr (a\<lparr>pending := removeAll t (pending a) @ [fresh a],
                current_step := Suc (current_step a), timer := Some (fresh a),
                fresh := Suc (fresh a)\<rparr>,
              on_frame (a\<lparr>current_step := Suc (current_step a)\<rparr>) u)"
  | (complete) "animating a" "t \<in> set (pending a)"
      "max_steps a \<le> int (Suc (current_step a))"
      "fire_with hook t a u =
         Inr (hook (a\<lparr>pending := removeAll t (pending a),
                      current_step := Suc (current_step a)\<rparr>, u))"
proof (cases "t \<in> set (pending a)")
  case False
  then show ?thesis using absent fire_with_not_pending by blast
next
  case pend: True
  show ?thesis
  proof (cases "animating a")
    case False
    then show ?thesis using idle fire_with_idle by blast
  next
    case anim: True
    show ?thesis
    proof (cases "int (Suc (current_step a)) < max_steps a")
      case True
      with anim pend show ?thesis using frame fire_with_frame by blast
    next
      case False
      then have "max_steps a \<le> int (Suc (current_step a))" by simp
      with anim pend show ?thesis using complete fire_with_complete by blast
    qed
  qed
qed

text \<open>A thread that runs alone does what the tick of \<open>fire_with\<close> does.\<close>

lemma one_thread_is_fire_with:
  assumes "t \<in> set (pending a)"
  shows "thread_run hook [Enters t, Runs (length ths), Runs (length ths), Runs (length ths),
            Runs (length ths), Runs (length ths)] (a, u, ths)
         = map_sum id (\<lambda>(a', u'). (a', u', ths @ [None])) (fire_with hook t a u)"
  using assms
  by (auto simp: fire_with_def advance_with_def stmt_def Let_def nth_append
      split: prod.splits sum.splits)

lemma fade_frame:
  "cls a = Fade s e \<Longrightarrow> int (current_step a) < max_steps a \<Longrightarrow>
   on_frame a u =
     write_value a (PFloat (s + (e - s) *
        - (real (current_step a) / real_of_int (max_steps a)
            * (real (current_step a) / real_of_int (max_steps a) - 2)))) u"
  by (simp add: on_frame_def get_eased_progress_def get_progress_def ease_def)

lemma blink_frame:
  "cls a = Blink n \<Longrightarrow>
   on_frame a u = write_value a (PInt (if current_step a mod 2 = 0 then 1 else 0)) u"
  by (simp add: on_frame_def)

lemma stopped_ignores_timers:
  "\<not> animating b \<Longrightarrow>
   \<exists>b'. run (map Fire ts) (b, u) = Inr (b', u) \<and> \<not> animating b'
      \<and> current_step b' = current_step b"
proof (induction ts arbitrary: b)
  case Nil
  then show ?case by simp
next
  case (Cons t ts)
  let ?b = "b\<lparr>pending := removeAll t (pending b)\<rparr>"
  from Cons.prems have "\<not> animating ?b" by simp
  from Cons.IH [OF this] Cons.prems show ?case
    by (simp add: fire_with_idle)
qed

subsection \<open>Starting twice\<close>

text \<open>
  C1 says that \<^verbatim>\<open>start()\<close> cancels the timer that is pending, so that an animation never has
  more than one. What \<^verbatim>\<open>start()\<close> does: every timer that was pending stays pending, one more
  is added, and \<open>current_step\<close> is 0. An animation that is started twice has two pending
  timers.
\<close>

theorem start_keeps_pending_timers:
  assumes "start a = Inr a'"
  shows "pending a' = pending a @ [fresh a] \<and> timer a' = Some (fresh a)
         \<and> current_step a' = 0 \<and> animating a'"
  using assms by (auto simp: start_def schedule_next_frame_def split: if_splits)

theorem start_keeps_pending_timers_witness:
  "\<exists>a1 a2. start AnimationState = Inr a1 \<and> start a1 = Inr a2
     \<and> pending a1 = [0] \<and> pending a2 = [0, 1] \<and> timer a2 = Some 1 \<and> current_step a2 = 0"
proof -
  obtain a1 where a1: "start AnimationState = Inr a1"
    by (simp add: start_ok AnimationState_def)
  obtain a2 where a2: "start a1 = Inr a2"
    using a1 by (auto simp: start_ok AnimationState_def)
  from start_keeps_pending_timers [OF a1] start_keeps_pending_timers [OF a2] a1 a2
  show ?thesis by (auto simp: start_ok AnimationState_def)
qed

subsection \<open>Stopping\<close>

text \<open>
  C4 says, in its last part, that \<^verbatim>\<open>stop()\<close> on an animation that is not animating is a
  no-op. It is not when a timer handle is stored: \<^verbatim>\<open>stop()\<close> tests \<^verbatim>\<open>self.timer\<close>, not
  \<^verbatim>\<open>animating\<close>. After a run to completion the handle of the last timer is still stored and
  \<^verbatim>\<open>stop()\<close> drops it; after two starts and a run to completion the timer of the other chain
  is still pending and \<^verbatim>\<open>stop()\<close> cancels it.
\<close>

theorem stop_after_completion_changes_state:
  "run [Start, Fire 0, Fire 1, Fire 2, Fire 3, Fire 4, Fire 5, Fire 6, Fire 7, Fire 8, Fire 9]
     (AnimationState, \<lparr>attrs = Map.empty, writes = [], updates = [], completions = 0\<rparr>)
   = Inr (AnimationState\<lparr>current_step := 10, timer := Some 9, fresh := 10\<rparr>,
          \<lparr>attrs = Map.empty, writes = [], updates = [], completions = 0\<rparr>)
   \<and> \<not> animating (AnimationState\<lparr>current_step := 10, timer := Some 9, fresh := 10\<rparr>)
   \<and> stop (AnimationState\<lparr>current_step := 10, timer := Some 9, fresh := 10\<rparr>)
       \<noteq> AnimationState\<lparr>current_step := 10, timer := Some 9, fresh := 10\<rparr>
   \<and> run [Start, Start, Fire 0, Fire 1, Fire 2, Fire 3, Fire 4, Fire 5, Fire 6, Fire 7, Fire 8,
          Fire 9]
       (AnimationState, \<lparr>attrs = Map.empty, writes = [], updates = [], completions = 0\<rparr>)
     = Inr (AnimationState\<lparr>current_step := 10, timer := Some 10, pending := [10], fresh := 11\<rparr>,
            \<lparr>attrs = Map.empty, writes = [], updates = [], completions = 0\<rparr>)
   \<and> pending (stop (AnimationState\<lparr>current_step := 10, timer := Some 10, pending := [10],
                        fresh := 11\<rparr>)) = []"
proof -
  have "timer (stop (AnimationState\<lparr>current_step := 10, timer := Some 9, fresh := 10\<rparr>)) = None"
    by (simp add: stop_fields)
  moreover have "timer (AnimationState\<lparr>current_step := 10, timer := Some 9, fresh := 10\<rparr>) = Some 9"
    by simp
  ultimately have "stop (AnimationState\<lparr>current_step := 10, timer := Some 9, fresh := 10\<rparr>)
       \<noteq> AnimationState\<lparr>current_step := 10, timer := Some 9, fresh := 10\<rparr>"
    by (metis option.distinct(1))
  then show ?thesis
    by (simp add: AnimationState_def start_ok fire_with_frame fire_with_complete on_frame_def
        on_complete_def stop_fields)
qed

text \<open>
  C4, amended. After \<^verbatim>\<open>stop()\<close> the animation is not animating; a tick that still runs
  (\<^verbatim>\<open>_advance\<close> called on the stopped animation) returns at the guard, and whatever timers
  fire afterwards, the target and the callbacks are left alone and \<open>current_step\<close> stays.
  \<^verbatim>\<open>stop()\<close> has no failing branch, and stopping twice is stopping once. On an animation
  that is not animating, \<^verbatim>\<open>stop()\<close> leaves every attribute but the timer handle as it is: it
  drops the handle and cancels that timer if it is still pending. Only when no handle is
  stored, as before the first start and after a stop, does it change nothing at all.
\<close>

theorem stop_silences_animation:
  "\<not> animating (stop a)
   \<and> advance (stop a) u = Inr (stop a, u)
   \<and> (\<exists>a'. run (Stop # map Fire ts) (a, u) = Inr (a', u) \<and> \<not> animating a'
          \<and> current_step a' = current_step a)
   \<and> stop (stop a) = stop a
   \<and> (\<not> animating a \<longrightarrow>
        stop a = a\<lparr>timer := None,
                   pending := (case timer a of None \<Rightarrow> pending a
                               | Some t \<Rightarrow> removeAll t (pending a))\<rparr>)
   \<and> (\<not> animating a \<and> timer a = None \<longrightarrow> stop a = a)"
proof -
  have idle: "\<not> animating (stop a)"
    by (simp add: stop_fields)
  have "current_step (stop a) = current_step a"
    by (simp add: stop_fields)
  with stopped_ignores_timers [OF idle, of ts u]
  have "\<exists>a'. run (Stop # map Fire ts) (a, u) = Inr (a', u) \<and> \<not> animating a'
          \<and> current_step a' = current_step a"
    by simp
  moreover have "advance (stop a) u = Inr (stop a, u)"
    using idle by (simp add: advance_def advance_with_def)
  moreover have "stop (stop a) = stop a"
    by (simp add: stop_fields)
  moreover have "\<not> animating a \<longrightarrow>
        stop a = a\<lparr>timer := None,
                   pending := (case timer a of None \<Rightarrow> pending a
                               | Some t \<Rightarrow> removeAll t (pending a))\<rparr>"
    by (simp add: stop_fields)
  moreover have "\<not> animating a \<and> timer a = None \<longrightarrow> stop a = a"
    by (simp add: stop_fields)
  ultimately show ?thesis using idle by blast
qed

theorem stop_silences_animation_witness:
  "\<not> animating AnimationState \<and> timer AnimationState = None
   \<and> stop AnimationState = AnimationState
   \<and> \<not> animating (AnimationState\<lparr>current_step := 10, timer := Some 10, pending := [10],
                        fresh := 11\<rparr>)
   \<and> stop (AnimationState\<lparr>current_step := 10, timer := Some 10, pending := [10], fresh := 11\<rparr>)
       = AnimationState\<lparr>current_step := 10, timer := None, pending := [], fresh := 11\<rparr>
   \<and> (\<exists>a'. run [Stop, Fire 0, Fire 1]
              ((FadeAnimation 0 ''opacity'' 0 1 False)
                 \<lparr>animating := True, timer := Some 1, pending := [0, 1], fresh := 2\<rparr>,
               \<lparr>attrs = [''opacity'' \<mapsto> PFloat 0], writes = [], updates = [], completions = 0\<rparr>)
            = Inr (a', \<lparr>attrs = [''opacity'' \<mapsto> PFloat 0], writes = [], updates = [],
                        completions = 0\<rparr>)
          \<and> \<not> animating a')"
proof -
  let ?a = "(FadeAnimation 0 ''opacity'' 0 1 False)
              \<lparr>animating := True, timer := Some 1, pending := [0, 1], fresh := 2\<rparr>"
  let ?c = "AnimationState\<lparr>current_step := 10, timer := Some 10, pending := [10], fresh := 11\<rparr>"
  let ?u = "\<lparr>attrs = [''opacity'' \<mapsto> PFloat 0], writes = [], updates = [], completions = 0\<rparr>"
  have idle: "\<not> animating AnimationState \<and> timer AnimationState = None"
    by (simp add: AnimationState_def)
  with stop_silences_animation [of AnimationState ?u "[]"]
  have same: "stop AnimationState = AnimationState"
    by blast
  have over: "\<not> animating ?c"
    by (simp add: AnimationState_def)
  with stop_silences_animation [of ?c ?u "[]"]
  have "stop ?c = ?c\<lparr>timer := None,
                       pending := (case timer ?c of None \<Rightarrow> pending ?c
                                   | Some t \<Rightarrow> removeAll t (pending ?c))\<rparr>"
    by blast
  then have dropped: "stop ?c =
      AnimationState\<lparr>current_step := 10, timer := None, pending := [], fresh := 11\<rparr>"
    by (simp add: AnimationState_def)
  have evs: "Stop # map Fire [0, 1] = [Stop, Fire 0, Fire 1]"
    by simp
  from stop_silences_animation [of ?a ?u "[0, 1]"]
  have "\<exists>a'. run (Stop # map Fire [0, 1]) (?a, ?u) = Inr (a', ?u) \<and> \<not> animating a'"
    by blast
  then have "\<exists>a'. run [Stop, Fire 0, Fire 1] (?a, ?u) = Inr (a', ?u) \<and> \<not> animating a'"
    unfolding evs .
  with idle same over dropped show ?thesis
    by blast
qed

subsection \<open>Running to completion\<close>

text \<open>
  C5 says that a fade from 0.0 to 1.0 with \<open>max_steps = 10\<close>, run to completion, leaves the
  property at exactly 1.0. The run on a target that has the attribute: the tenth tick
  completes the animation without a frame, so the last value written is that of step 9,
  which is 0.99; the animation is not animating afterwards.
\<close>

theorem fade_run_ends_below_end_value:
  "\<exists>a u'. run [Start, Fire 0, Fire 1, Fire 2, Fire 3, Fire 4, Fire 5, Fire 6, Fire 7, Fire 8, Fire 9]
      (FadeAnimation obj ''opacity'' 0 1 False,
       \<lparr>attrs = m(''opacity'' \<mapsto> v), writes = [], updates = [], completions = c\<rparr>) = Inr (a, u')
    \<and> \<not> animating a \<and> current_step a = 10 \<and> max_steps a = 10 \<and> pending a = []
    \<and> attrs u' ''opacity'' = Some (PFloat 0.99)
    \<and> writes u' = map (\<lambda>x. (''opacity'', PFloat x))
                     [0.19, 0.36, 0.51, 0.64, 0.75, 0.84, 0.91, 0.96, 0.99]"
  by (simp add: FadeAnimation_def AnimationState_def start_ok fire_with_frame fire_with_complete
      fade_frame write_value_def hasattr_def setattr_def on_complete_def)

text \<open>
  C6 says that a blink animation with \<open>blink_count = 3\<close> has \<open>max_steps = 6\<close>, writes
  1, 0, 1, 0, 1, 0 and completes after the sixth tick. The run on a target that has the
  attribute: \<open>max_steps\<close> is 6 and the sixth tick completes the animation, but the first frame
  is that of step 1 and the sixth tick writes nothing, so the values written are 0, 1, 0, 1, 0.
\<close>

theorem blink_run_writes_five_values:
  "\<exists>a u'. run [Start, Fire 0, Fire 1, Fire 2, Fire 3, Fire 4, Fire 5]
      (BlinkAnimation obj name 3 False,
       \<lparr>attrs = m(name \<mapsto> v), writes = [], updates = [], completions = c\<rparr>) = Inr (a, u')
    \<and> max_steps a = 6 \<and> \<not> animating a \<and> current_step a = 6 \<and> pending a = []
    \<and> map snd (writes u') = [PInt 0, PInt 1, PInt 0, PInt 1, PInt 0]"
  by (simp add: BlinkAnimation_def AnimationState_def start_ok fire_with_frame fire_with_complete
      blink_frame write_value_def hasattr_def setattr_def on_complete_def)

section \<open>Pop animations\<close>

subsection \<open>The easing argument\<close>

lemma pi_step_easing:
  "pi_step ev (p\<lparr>pi_easing := e\<rparr>, u) =
     map_sum id (\<lambda>(p', u'). (p'\<lparr>pi_easing := e\<rparr>, u')) (pi_step ev (p, u))"
  by (cases ev)
     (auto simp: pi_start_def pi_stop_def pi_create_animations_def Let_def
           split: sum.splits prod.splits)

lemma pi_run_easing:
  "pi_run evs (p\<lparr>pi_easing := e\<rparr>, u) =
     map_sum id (\<lambda>(p', u'). (p'\<lparr>pi_easing := e\<rparr>, u')) (pi_run evs (p, u))"
proof (induction evs arbitrary: p u)
  case Nil
  show ?case by simp
next
  case (Cons ev evs)
  show ?case
  proof (cases "pi_step ev (p, u)")
    case (Inl x)
    then show ?thesis by (simp add: pi_step_easing)
  next
    case (Inr s)
    obtain p' u' where s: "s = (p', u')" by (cases s)
    with Inr Cons.IH [of p' u'] show ?thesis by (simp add: pi_step_easing)
  qed
qed

lemma completion_wrapper_easing:
  "completion_wrapper (p\<lparr>po_easing := e\<rparr>) = completion_wrapper p"
  by (rule ext) (simp add: completion_wrapper_def)

lemma po_step_easing:
  "po_step ev (p\<lparr>po_easing := e\<rparr>, u) =
     map_sum id (\<lambda>(p', u'). (p'\<lparr>po_easing := e\<rparr>, u')) (po_step ev (p, u))"
  by (cases ev)
     (auto simp: po_start_def po_stop_def po_create_animations_def Let_def
           completion_wrapper_easing split: sum.splits prod.splits)

lemma po_run_easing:
  "po_run evs (p\<lparr>po_easing := e\<rparr>, u) =
     map_sum id (\<lambda>(p', u'). (p'\<lparr>po_easing := e\<rparr>, u')) (po_run evs (p, u))"
proof (induction evs arbitrary: p u)
  case Nil
  show ?case by simp
next
  case (Cons ev evs)
  show ?case
  proof (cases "po_step ev (p, u)")
    case (Inl x)
    then show ?thesis by (simp add: po_step_easing)
  next
    case (Inr s)
    obtain p' u' where s: "s = (p', u')" by (cases s)
    with Inr Cons.IH [of p' u'] show ?thesis by (simp add: po_step_easing)
  qed
qed

text \<open>
  C9. The \<open>easing\<close> argument of a pop-in or pop-out animation changes nothing that can be
  observed: two animations that differ only in it, taken through the same events from the
  same target, fail alike or leave the same target, the same sequence of values written to it
  and the same calls of the callbacks. A frame of the fade child eases with
  \<open>''ease_out_quad''\<close> and a frame of the scale child with \<open>''ease_out_elastic''\<close>, whatever
  the animation is.
\<close>

theorem pop_easing_is_ignored:
  "map_sum id snd (pi_run evs (PopInAnimation obj op sp upd ss es d e1, u)) =
   map_sum id snd (pi_run evs (PopInAnimation obj op sp upd ss es d e2, u))
   \<and> map_sum id snd (po_run evs (PopOutAnimation obj op sp upd cb ss es d e1, u)) =
     map_sum id snd (po_run evs (PopOutAnimation obj op sp upd cb ss es d e2, u))
   \<and> on_frame (a\<lparr>cls := Fade s e\<rparr>) u =
       write_value (a\<lparr>cls := Fade s e\<rparr>)
         (PFloat (s + (e - s) * ease ''ease_out_quad'' (get_progress a))) u
   \<and> on_frame (a\<lparr>cls := Scale s e\<rparr>) u =
       write_value (a\<lparr>cls := Scale s e\<rparr>)
         (PFloat (s + (e - s) * ease ''ease_out_elastic'' (get_progress a))) u"
proof -
  have "PopInAnimation obj op sp upd ss es d e2 =
        (PopInAnimation obj op sp upd ss es d e1)\<lparr>pi_easing := e2\<rparr>"
    by (simp add: PopInAnimation_def)
  moreover have "PopOutAnimation obj op sp upd cb ss es d e2 =
        (PopOutAnimation obj op sp upd cb ss es d e1)\<lparr>po_easing := e2\<rparr>"
    by (simp add: PopOutAnimation_def)
  ultimately have "map_sum id snd (pi_run evs (PopInAnimation obj op sp upd ss es d e1, u)) =
      map_sum id snd (pi_run evs (PopInAnimation obj op sp upd ss es d e2, u))"
    and "map_sum id snd (po_run evs (PopOutAnimation obj op sp upd cb ss es d e1, u)) =
      map_sum id snd (po_run evs (PopOutAnimation obj op sp upd cb ss es d e2, u))"
    by (simp_all add: pi_run_easing po_run_easing sum.map_comp comp_def split_def id_def)
  moreover have "on_frame (a\<lparr>cls := Fade s e\<rparr>) u =
       write_value (a\<lparr>cls := Fade s e\<rparr>)
         (PFloat (s + (e - s) * ease ''ease_out_quad'' (get_progress a))) u"
    and "on_frame (a\<lparr>cls := Scale s e\<rparr>) u =
       write_value (a\<lparr>cls := Scale s e\<rparr>)
         (PFloat (s + (e - s) * ease ''ease_out_elastic'' (get_progress a))) u"
    by (simp_all add: on_frame_def get_eased_progress_def get_progress_def)
  ultimately show ?thesis
    by blast
qed

subsection \<open>The completion callback of a pop-out animation\<close>

lemma write_value_completions [simp]: "completions (write_value a v u) = completions u"
  by (simp add: write_value_def setattr_def call_on_update_def)

lemma on_frame_completions [simp]: "completions (on_frame a u) = completions u"
  by (simp add: on_frame_def split: anim_class.split)

lemma set_if_present_completions [simp]: "completions (set_if_present n v u) = completions u"
  by (simp add: set_if_present_def setattr_def)

lemma po_fire_fade:
  assumes "po_inv p"
  shows "\<exists>p' u'. po_step (FireFade t) (p, u) = Inr (p', u') \<and> po_inv p'
           \<and> tally p' u' = tally p u"
proof (cases "po_fade_animation p")
  case None
  with assms show ?thesis
    by (auto simp: fire_child_def po_inv_def tally_def fade_animating_def split: option.splits)
next
  case (Some f)
  show ?thesis
  proof (cases rule: fire_with_cases [where t = t and a = f and hook = "completion_wrapper p" and u = u])
    case absent
    with Some assms show ?thesis
      by (auto simp: fire_child_def po_inv_def tally_def fade_animating_def split: option.splits)
  next
    case idle
    with Some assms show ?thesis
      by (simp add: fire_child_def po_inv_def tally_def fade_animating_def)
  next
    case frame
    with Some assms show ?thesis
      by (simp add: fire_child_def po_inv_def tally_def fade_animating_def)
  next
    case complete
    with Some assms show ?thesis
      by (simp add: fire_child_def po_inv_def tally_def fade_animating_def
          completion_wrapper_def on_complete_def)
  qed
qed

lemma po_fire_scale:
  assumes "po_inv p"
  shows "\<exists>p' u'. po_step (FireScale t) (p, u) = Inr (p', u') \<and> po_inv p'
           \<and> tally p' u' = tally p u"
proof (cases "po_scale_animation p")
  case None
  with assms show ?thesis
    by (auto simp: fire_child_def po_inv_def tally_def fade_animating_def split: option.splits)
next
  case (Some s)
  show ?thesis
  proof (cases rule: fire_with_cases [where t = t and a = s and hook = on_complete and u = u])
    case absent
    with Some assms show ?thesis
      by (auto simp: fire_child_def po_inv_def tally_def fade_animating_def split: option.splits)
  next
    case idle
    with Some assms show ?thesis
      by (auto simp: fire_child_def po_inv_def tally_def fade_animating_def split: option.splits)
  next
    case frame
    with Some assms show ?thesis
      by (auto simp: fire_child_def po_inv_def tally_def fade_animating_def split: option.splits)
  next
    case complete
    with Some assms show ?thesis
      by (auto simp: fire_child_def po_inv_def tally_def fade_animating_def
          on_complete_def split: option.splits)
  qed
qed

lemma po_start_ok:
  assumes "po_inv p"
  shows "\<exists>p' u' f. po_start p u = Inr (p', u') \<and> po_inv p' \<and> completions u' = completions u
           \<and> po_fade_animation p' = Some f \<and> animating f \<and> current_step f = 0
           \<and> next_fade_timer p \<in> set (pending f) \<and> fresh f = Suc (next_fade_timer p)"
proof (cases "po_fade_animation p")
  case None
  with assms have "po_scale_animation p = None"
    by (simp add: po_inv_def)
  with None assms show ?thesis
    by (simp add: po_start_def po_create_animations_def start_both_def start_ok
        FadeAnimation_def ScaleAnimation_def AnimationState_def po_inv_def next_fade_timer_def)
next
  case (Some f)
  with assms obtain s where "po_scale_animation p = Some s" "max_steps s = 10" "max_steps f = 10"
    by (auto simp: po_inv_def split: option.splits)
  with Some assms show ?thesis
    by (simp add: po_start_def start_both_def start_ok po_inv_def next_fade_timer_def)
qed

lemma po_stop_ok: "po_inv p \<Longrightarrow> po_inv (po_stop p) \<and> \<not> fade_animating (po_stop p)"
  by (auto simp: po_inv_def po_stop_def stop_fields fade_animating_def split: option.splits)

lemma po_step_ok:
  assumes "po_inv p"
  shows "\<exists>p' u'. po_step ev (p, u) = Inr (p', u') \<and> po_inv p'
           \<and> tally p' u' \<le> tally p u + (if ev = PStart then 1 else 0)"
proof (cases ev)
  case PStart
  from po_start_ok [OF assms, of u] show ?thesis
    unfolding PStart by (auto simp: tally_def fade_animating_def)
next
  case PStop
  with po_stop_ok [OF assms] show ?thesis
    by (simp add: tally_def)
next
  case (FireFade t)
  with po_fire_fade [OF assms, of t u] show ?thesis by auto
next
  case (FireScale t)
  with po_fire_scale [OF assms, of t u] show ?thesis by auto
qed

lemma po_run_ok:
  assumes "po_inv p"
  shows "\<exists>p' u'. po_run evs (p, u) = Inr (p', u') \<and> po_inv p'
           \<and> tally p' u' \<le> tally p u + count_list evs PStart"
  using assms
proof (induction evs arbitrary: p u)
  case Nil
  then show ?case by simp
next
  case (Cons ev evs)
  from po_step_ok [OF Cons.prems, of ev u] obtain p1 u1 where
    s: "po_step ev (p, u) = Inr (p1, u1)" "po_inv p1"
       "tally p1 u1 \<le> tally p u + (if ev = PStart then 1 else 0)"
    by blast
  from Cons.IH [OF s(2), of u1] obtain p' u' where
    r: "po_run evs (p1, u1) = Inr (p', u')" "po_inv p'"
       "tally p' u' \<le> tally p1 u1 + count_list evs PStart"
    by blast
  from s r show ?case by auto
qed

lemma po_timers_ok:
  assumes "po_inv p" "list_all is_timer evs"
  shows "\<exists>p' u'. po_run evs (p, u) = Inr (p', u') \<and> po_inv p' \<and> tally p' u' = tally p u"
  using assms
proof (induction evs arbitrary: p u)
  case Nil
  then show ?case by simp
next
  case (Cons ev evs)
  from Cons.prems have "is_timer ev" by simp
  have "\<exists>p1 u1. po_step ev (p, u) = Inr (p1, u1) \<and> po_inv p1 \<and> tally p1 u1 = tally p u"
  proof (cases ev)
    case PStart
    with \<open>is_timer ev\<close> show ?thesis by simp
  next
    case PStop
    with \<open>is_timer ev\<close> show ?thesis by simp
  next
    case (FireFade t)
    from po_fire_fade [OF Cons.prems(1), of t u] show ?thesis
      unfolding FireFade .
  next
    case (FireScale t)
    from po_fire_scale [OF Cons.prems(1), of t u] show ?thesis
      unfolding FireScale .
  qed
  then obtain p1 u1 where
    s: "po_step ev (p, u) = Inr (p1, u1)" "po_inv p1" "tally p1 u1 = tally p u"
    by blast
  from Cons.prems have "list_all is_timer evs" by simp
  from Cons.IH [OF s(2) this, of u1] s show ?case by auto
qed

lemma fade_chain:
  assumes "po_inv p" "po_fade_animation p = Some f" "animating f" "n \<in> set (pending f)"
    "fresh f = Suc n" "current_step f + Suc k = 10"
  shows "\<exists>p' u'. po_run (map FireFade [n ..< n + Suc k]) (p, u) = Inr (p', u')
           \<and> \<not> fade_animating p'"
  using assms
proof (induction k arbitrary: p f n u)
  case 0
  from "0.prems" have m: "max_steps f = 10"
    by (simp add: po_inv_def)
  with "0.prems" have "max_steps f \<le> int (Suc (current_step f))"
    by simp
  from fire_with_complete [OF "0.prems"(3,4) this, of "completion_wrapper p" u] "0.prems"(2)
  show ?case
    by (simp add: fire_child_def completion_wrapper_def on_complete_def fade_animating_def
        split: prod.split)
next
  case (Suc k)
  from Suc.prems have m: "max_steps f = 10"
    by (simp add: po_inv_def)
  with Suc.prems have "int (Suc (current_step f)) < max_steps f"
    by simp
  note fired = fire_with_frame [OF Suc.prems(3,4) this, of "completion_wrapper p" u]
  let ?f = "f\<lparr>pending := removeAll n (pending f) @ [fresh f],
               current_step := Suc (current_step f), timer := Some (fresh f),
               fresh := Suc (fresh f)\<rparr>"
  let ?u = "on_frame (f\<lparr>current_step := Suc (current_step f)\<rparr>) u"
  let ?p = "p\<lparr>po_fade_animation := Some ?f\<rparr>"
  from fired Suc.prems(2) have step: "po_step (FireFade n) (p, u) = Inr (?p, ?u)"
    by (simp add: fire_child_def)
  from Suc.prems(1,2) have inv: "po_inv ?p"
    by (auto simp: po_inv_def split: option.splits)
  have "\<exists>p' u'. po_run (map FireFade [Suc n ..< Suc n + Suc k]) (?p, ?u) = Inr (p', u')
           \<and> \<not> fade_animating p'"
    using Suc.prems by (intro Suc.IH [OF inv, of ?f]) simp_all
  moreover have "[n ..< n + Suc (Suc k)] = n # [Suc n ..< Suc n + Suc k]"
    by (simp add: upt_conv_Cons)
  ultimately show ?case
    using step by simp
qed

lemma po_inv_init: "po_inv (PopOutAnimation obj op sp upd True ss es d e)"
  by (simp add: po_inv_def PopOutAnimation_def)

text \<open>
  When no two ticks overlap, the wrapper does not stack and the callback keeps pace with the
  cycles: take a pop-out animation built with a completion callback, in any state it can
  reach, and call \<^verbatim>\<open>start()\<close>. Whatever timers fire afterwards, one tick after the other, the
  callback has been called once more when the fade animation has completed, and not at all
  while it has not; ten ticks of the new chain complete it; and the callbacks never outnumber
  the calls of \<^verbatim>\<open>start()\<close>.
\<close>

lemma callback_once_when_ticks_do_not_overlap:
  assumes "po_run evs0 (PopOutAnimation obj op sp upd True ss es d e, u0) = Inr (p, u)"
    and "list_all is_timer evs"
  shows "(\<exists>p' u'. po_run (PStart # evs) (p, u) = Inr (p', u')
            \<and> completions u' = completions u + (if fade_animating p' then 0 else 1))
       \<and> (\<exists>p' u'. po_run (PStart # map FireFade [next_fade_timer p ..< next_fade_timer p + 10])
                     (p, u) = Inr (p', u')
            \<and> \<not> fade_animating p' \<and> completions u' = completions u + 1)
       \<and> completions u + (if fade_animating p then 1 else 0)
           \<le> completions u0 + count_list evs0 PStart"
proof -
  from po_run_ok [OF po_inv_init, of evs0 obj op sp upd ss es d e u0] assms(1)
  have inv: "po_inv p"
    and bound: "tally p u \<le> tally (PopOutAnimation obj op sp upd True ss es d e) u0
                  + count_list evs0 PStart"
    by auto
  from po_start_ok [OF inv, of u] obtain p1 u1 f where
    started: "po_start p u = Inr (p1, u1)" "po_inv p1" "completions u1 = completions u"
      "po_fade_animation p1 = Some f" "animating f" "current_step f = 0"
      "next_fade_timer p \<in> set (pending f)" "fresh f = Suc (next_fade_timer p)"
    by blast
  then have t1: "tally p1 u1 = completions u + 1"
    by (simp add: tally_def fade_animating_def)
  have once: "\<exists>p' u'. po_run (PStart # es') (p, u) = Inr (p', u')
            \<and> completions u' = completions u + (if fade_animating p' then 0 else 1)"
    if "list_all is_timer es'" for es'
  proof -
    from po_timers_ok [OF started(2) that, of u1] obtain p' u' where
      "po_run es' (p1, u1) = Inr (p', u')" "tally p' u' = tally p1 u1"
      by blast
    with t1 started(1) show ?thesis
      by (auto simp: tally_def split: if_splits)
  qed
  let ?ts = "map FireFade [next_fade_timer p ..< next_fade_timer p + 10]"
  have timers: "list_all is_timer ?ts"
    by (simp add: list_all_iff)
  from started have "current_step f + Suc 9 = 10"
    by simp
  from fade_chain [OF started(2,4,5,7,8) this, of u1] obtain p2 u2 where
    fin: "po_run ?ts (p1, u1) = Inr (p2, u2)" "\<not> fade_animating p2"
    by auto
  from once [OF timers] fin started(1)
  have live: "\<exists>p' u'. po_run (PStart # ?ts) (p, u) = Inr (p', u')
            \<and> \<not> fade_animating p' \<and> completions u' = completions u + 1"
    by auto
  from bound have "completions u + (if fade_animating p then 1 else 0)
           \<le> completions u0 + count_list evs0 PStart"
    by (simp add: tally_def fade_animating_def PopOutAnimation_def)
  with once [OF assms(2)] live show ?thesis
    by blast
qed

text \<open>
  C3 says that the callback of a pop-out animation is called exactly once per cycle also
  when \<^verbatim>\<open>start()\<close> is called again before the cycle has finished, the new cycle superseding
  the old one. What the code does: the second \<^verbatim>\<open>start()\<close> leaves the timer of the first
  pending beside its own, so that two chains of timers tick the one fade animation (the
  defect of C1); and when the last ticks of the two chains overlap, the one past the guard
  before the other completes, both find \<open>current_step\<close> at \<open>max_steps\<close> and both call the
  wrapper: the callback is called twice in one cycle.
\<close>

theorem pop_out_restart_calls_back_twice:
  "(\<exists>p0 u0 f0.
      po_run [PStart, PStart]
        (PopOutAnimation 0 ''opacity'' ''scale'' False True 1 0.9 0.25 ''ease_in_quad'',
         \<lparr>attrs = [''opacity'' \<mapsto> PFloat 1, ''scale'' \<mapsto> PFloat 1], writes = [], updates = [],
          completions = 0\<rparr>) = Inr (p0, u0)
      \<and> po_fade_animation p0 = Some f0 \<and> current_step f0 = 0 \<and> pending f0 = [0, 1])
   \<and> (\<exists>p u f.
      po_run [PStart, PStart, FireFade 0, FireFade 1, FireFade 2, FireFade 3, FireFade 4,
              FireFade 5, FireFade 6, FireFade 7]
        (PopOutAnimation 0 ''opacity'' ''scale'' False True 1 0.9 0.25 ''ease_in_quad'',
         \<lparr>attrs = [''opacity'' \<mapsto> PFloat 1, ''scale'' \<mapsto> PFloat 1], writes = [], updates = [],
          completions = 0\<rparr>) = Inr (p, u)
      \<and> po_fade_animation p = Some f \<and> animating f \<and> current_step f = 8
      \<and> pending f = [8, 9] \<and> completions u = 0
      \<and> (\<exists>f' u'.
            thread_run (completion_wrapper p)
              [Enters 8, Enters 9, Runs 0, Runs 0, Runs 1, Runs 1, Runs 1, Runs 0] (f, u, [])
              = Inr (f', u', [None, None])
          \<and> \<not> animating f' \<and> current_step f' = 10 \<and> completions u' = 2))"
  by (simp add: PopOutAnimation_def po_start_def po_create_animations_def start_both_def
      start_ok FadeAnimation_def ScaleAnimation_def AnimationState_def fire_child_def
      fire_with_frame fade_frame write_value_def set_if_present_def hasattr_def setattr_def
      stmt_def completion_wrapper_def on_complete_def)

section \<open>The manager and the toggle recipe\<close>

subsection \<open>Replacing a registered animation\<close>

text \<open>
  C2 says that \<^verbatim>\<open>add_animation\<close> on a name that holds a live animation stops that animation
  before it replaces it. What \<^verbatim>\<open>add_animation\<close> does: the name maps to the new entry, and
  no animation object is touched. In the run below a fade animation is registered as \<open>''k''\<close>
  and started, then another is registered under the same name and started: the first is
  still animating, its timer is still pending, and when that timer fires the first animation
  writes to the target.
\<close>

theorem add_animation_leaves_old_animation_running:
  "animations (add_animation name b w) name = Some b
   \<and> heap (add_animation name b w) = heap w
   \<and> (\<exists>w2 w4 w5.
         start_animation ''k''
           (add_animation ''k'' (Instance 0)
              (snd (new_object (FadeAnimation 5 ''opacity'' 0 1 False)
                 \<lparr>animations = Map.empty, heap = (\<lambda>r. AnimationState), next_ref = 0,
                  objs = (\<lambda>obj. \<lparr>attrs = [''opacity'' \<mapsto> PFloat 0], writes = [],
                                  updates = [], completions = 0\<rparr>)\<rparr>)))
           = Inr (True, w2)
       \<and> start_animation ''k''
           (add_animation ''k'' (Instance 1)
              (snd (new_object (FadeAnimation 5 ''opacity'' 1 0 False) w2)))
           = Inr (True, w4)
       \<and> animations w4 ''k'' = Some (Instance 1)
       \<and> animating (heap w4 0) \<and> pending (heap w4 0) = [0] \<and> timer (heap w4 0) = Some 0
       \<and> timer_fires 0 0 w4 = Inr w5
       \<and> current_step (heap w5 0) = 1
       \<and> writes (objs w5 5) = [(''opacity'', PFloat 0.19)])"
proof -
  have "animations (add_animation name b w) name = Some b"
    and "heap (add_animation name b w) = heap w"
    by (simp_all add: add_animation_def)
  moreover have "\<exists>w2 w4 w5.
         start_animation ''k''
           (add_animation ''k'' (Instance 0)
              (snd (new_object (FadeAnimation 5 ''opacity'' 0 1 False)
                 \<lparr>animations = Map.empty, heap = (\<lambda>r. AnimationState), next_ref = 0,
                  objs = (\<lambda>obj. \<lparr>attrs = [''opacity'' \<mapsto> PFloat 0], writes = [],
                                  updates = [], completions = 0\<rparr>)\<rparr>)))
           = Inr (True, w2)
       \<and> start_animation ''k''
           (add_animation ''k'' (Instance 1)
              (snd (new_object (FadeAnimation 5 ''opacity'' 1 0 False) w2)))
           = Inr (True, w4)
       \<and> animations w4 ''k'' = Some (Instance 1)
       \<and> animating (heap w4 0) \<and> pending (heap w4 0) = [0] \<and> timer (heap w4 0) = Some 0
       \<and> timer_fires 0 0 w4 = Inr w5
       \<and> current_step (heap w5 0) = 1
       \<and> writes (objs w5 5) = [(''opacity'', PFloat 0.19)]"
    by (simp add: start_animation_def add_animation_def new_object_def FadeAnimation_def
        AnimationState_def start_ok timer_fires_def fire_with_frame fade_frame write_value_def
        hasattr_def setattr_def)
  ultimately show ?thesis
    by blast
qed

text \<open>\<^verbatim>\<open>remove_animation\<close> does stop the animation before it deletes the entry.\<close>

lemma remove_animation_stops:
  assumes "animations w name = Some (Instance r)"
  shows "\<exists>w'. remove_animation name w = Inr (True, w') \<and> animations w' name = None
           \<and> \<not> animating (heap w' r) \<and> timer (heap w' r) = None"
  using assms by (simp add: remove_animation_def stop_fields)

subsection \<open>The toggle recipe\<close>

lemma str_of_nat_last: "str_of_nat n \<noteq> [] \<and> last (str_of_nat n) = char_of (48 + n mod 10)"
proof (cases "n < 10")
  case True
  then show ?thesis by (simp add: str_of_nat.simps [of n])
next
  case False
  then show ?thesis by (simp add: str_of_nat.simps [of n])
qed

lemma digit_is_no_letter:
  "char_of (48 + n mod 10 :: nat) \<noteq> CHR ''n'' \<and> char_of (48 + n mod 10 :: nat) \<noteq> CHR ''f''"
proof -
  let ?k = "48 + n mod 10"
  have "?k mod 256 = ?k"
    by (simp add: mod_less)
  then have k: "(of_char (char_of ?k) :: nat) = ?k"
    by (simp add: of_char_of)
  have "char_of ?k \<noteq> CHR ''n''"
  proof
    assume "char_of ?k = CHR ''n''"
    then have "(of_char (char_of ?k) :: nat) = of_char (CHR ''n'')"
      by (rule arg_cong)
    with k have "?k = 110" by simp
    then show False by presburger
  qed
  moreover have "char_of ?k \<noteq> CHR ''f''"
  proof
    assume "char_of ?k = CHR ''f''"
    then have "(of_char (char_of ?k) :: nat) = of_char (CHR ''f'')"
      by (rule arg_cong)
    with k have "?k = 102" by simp
    then show False by presburger
  qed
  ultimately show ?thesis ..
qed

lemma toggle_name_is_no_factory_name:
  "''toggle_'' @ str_of_nat n \<noteq> ''toggle_on'' \<and> ''toggle_'' @ str_of_nat n \<noteq> ''toggle_off''"
proof -
  from str_of_nat_last [of n] digit_is_no_letter [of n]
  have "last (str_of_nat n) \<noteq> CHR ''n''" "last (str_of_nat n) \<noteq> CHR ''f''"
    by simp_all
  then have "str_of_nat n \<noteq> ''on''" "str_of_nat n \<noteq> ''off''"
    by auto
  then show ?thesis by simp
qed

lemma animate_toggle_again:
  assumes "animations w (''toggle_'' @ str_of_nat obj) = Some (Instance r)"
    and "max_steps (heap w r) \<noteq> 0"
  shows "animate_toggle obj state w =
           Inr (w\<lparr>heap := (heap w)
                  (r := (heap w r)\<lparr>animating := True, current_step := 0,
                          timer := Some (fresh (heap w r)),
                          pending := pending (heap w r) @ [fresh (heap w r)],
                          fresh := Suc (fresh (heap w r))\<rparr>)\<rparr>)"
  using assms by (simp add: animate_toggle_def start_animation_def start_ok)

lemma animate_toggle_new:
  assumes "toggles_registered w" and "animations w (''toggle_'' @ str_of_nat obj) = None"
  shows "\<exists>w'. animate_toggle obj state w = Inr w'
           \<and> animations w' = (animations w)(''toggle_'' @ str_of_nat obj \<mapsto> Instance (next_ref w))
           \<and> heap w' = (heap w)
                (next_ref w :=
                   (FadeAnimation obj ''highlight'' (if state then 0 else 1)
                      (if state then 1 else 0) True)
                     \<lparr>animating := True, timer := Some 0, pending := [0], fresh := 1\<rparr>)
           \<and> next_ref w' = Suc (next_ref w)"
  using assms
  by (cases state)
     (simp_all add: toggles_registered_def animate_toggle_def new_object_def call_factory_def
        add_animation_def start_animation_def start_ok FadeAnimation_def AnimationState_def)

lemma fire_with_on_complete:
  "\<exists>a' u'. fire_with on_complete t a u = Inr (a', u') \<and> cls a' = cls a
      \<and> max_steps a' = max_steps a \<and> target_object a' = target_object a
      \<and> property_name a' = property_name a"
  by (cases rule: fire_with_cases [where t = t and a = a and hook = on_complete and u = u])
     (simp_all add: on_complete_def)

lemma timer_fires_keeps:
  "\<exists>w'. timer_fires r' t w = Inr w' \<and> animations w' = animations w
      \<and> next_ref w' = next_ref w
      \<and> (\<forall>r. cls (heap w' r) = cls (heap w r) \<and> max_steps (heap w' r) = max_steps (heap w r)
            \<and> target_object (heap w' r) = target_object (heap w r)
            \<and> property_name (heap w' r) = property_name (heap w r))"
proof -
  let ?a = "heap w r'"
  from fire_with_on_complete [of t ?a "objs w (target_object ?a)"] obtain a' u' where
    "fire_with on_complete t ?a (objs w (target_object ?a)) = Inr (a', u')"
    "cls a' = cls ?a" "max_steps a' = max_steps ?a" "target_object a' = target_object ?a"
    "property_name a' = property_name ?a"
    by blast
  then show ?thesis
    by (simp add: timer_fires_def)
qed

lemma entry_ok_mono:
  assumes "entry_ok w e" "next_ref w \<le> next_ref w'"
    "\<And>r. r < next_ref w \<Longrightarrow> max_steps (heap w' r) = max_steps (heap w r)"
  shows "entry_ok w' e"
  using assms by (auto simp: entry_ok_def split: option.splits entry.splits)

lemma toggled_timer:
  assumes "toggled obj r n w"
  shows "\<exists>w'. timer_fires r' t w = Inr w' \<and> toggled obj r n w'"
proof -
  from timer_fires_keeps [of r' t w] obtain w' where
    w': "timer_fires r' t w = Inr w'" "animations w' = animations w" "next_ref w' = next_ref w"
      "\<And>r. cls (heap w' r) = cls (heap w r)" "\<And>r. max_steps (heap w' r) = max_steps (heap w r)"
      "\<And>r. target_object (heap w' r) = target_object (heap w r)"
      "\<And>r. property_name (heap w' r) = property_name (heap w r)"
    by blast
  from assms have reg: "toggles_registered w"
    by (simp add: toggled_def)
  have "entry_ok w' (animations w' (''toggle_'' @ str_of_nat x))" for x
  proof (rule entry_ok_mono)
    from reg w'(2) show "entry_ok w (animations w' (''toggle_'' @ str_of_nat x))"
      by (simp add: toggles_registered_def)
  qed (simp_all add: w')
  with reg w'(2) have "toggles_registered w'"
    by (simp add: toggles_registered_def)
  with assms w' have "toggled obj r n w'"
    by (simp add: toggled_def)
  with w'(1) show ?thesis by blast
qed

lemma animate_toggle_new_registered:
  assumes reg: "toggles_registered w"
    and None: "animations w (''toggle_'' @ str_of_nat obj') = None"
  shows "\<exists>w'. animate_toggle obj' state w = Inr w'
           \<and> animations w' = (animations w)(''toggle_'' @ str_of_nat obj' \<mapsto> Instance (next_ref w))
           \<and> heap w' = (heap w)
                (next_ref w :=
                   (FadeAnimation obj' ''highlight'' (if state then 0 else 1)
                      (if state then 1 else 0) True)
                     \<lparr>animating := True, timer := Some 0, pending := [0], fresh := 1\<rparr>)
           \<and> next_ref w' = Suc (next_ref w) \<and> toggles_registered w'"
proof -
  let ?key = "''toggle_'' @ str_of_nat obj'"
  from reg have entries: "entry_ok w (animations w (''toggle_'' @ str_of_nat x))" for x
    by (simp add: toggles_registered_def)
  from reg None have names: "?key \<noteq> ''toggle_on''" "?key \<noteq> ''toggle_off''"
    by (auto simp: toggles_registered_def)
  define a where "a = (FadeAnimation obj' ''highlight'' (if state then 0 else 1)
                    (if state then 1 else 0) True)
                   \<lparr>animating := True, timer := Some 0, pending := [0], fresh := 1\<rparr>"
  have a: "max_steps a = 10"
    by (simp add: a_def FadeAnimation_def AnimationState_def)
  from animate_toggle_new [OF reg None, of state] obtain w' where
    w': "animate_toggle obj' state w = Inr w'"
      "animations w' = (animations w)(?key \<mapsto> Instance (next_ref w))"
      "heap w' = (heap w)(next_ref w := a)" "next_ref w' = Suc (next_ref w)"
    unfolding a_def by blast
  have "entry_ok w' (animations w' (''toggle_'' @ str_of_nat x))" for x
  proof (cases "''toggle_'' @ str_of_nat x = ?key")
    case True
    with w' a show ?thesis
      by (simp add: entry_ok_def)
  next
    case False
    with w'(2) have "animations w' (''toggle_'' @ str_of_nat x)
        = animations w (''toggle_'' @ str_of_nat x)"
      by simp
    with entries [of x] w'(3,4) show ?thesis
      by (auto intro: entry_ok_mono)
  qed
  with reg names w'(2) have "toggles_registered w'"
    by (simp add: toggles_registered_def)
  with w' show ?thesis
    unfolding a_def by blast
qed

lemma toggled_toggle:
  assumes "toggled obj r n w"
  shows "\<exists>w'. animate_toggle obj' state w = Inr w' \<and> toggled obj r n w'"
proof -
  let ?key = "''toggle_'' @ str_of_nat obj'"
  from assms have reg: "toggles_registered w"
    and mine: "animations w (''toggle_'' @ str_of_nat obj) = Some (Instance r)"
    by (simp_all add: toggled_def)
  from reg have entries: "entry_ok w (animations w (''toggle_'' @ str_of_nat x))" for x
    by (simp add: toggles_registered_def)
  from entries [of obj] mine have r: "r < next_ref w"
    by (simp add: entry_ok_def)
  show ?thesis
  proof (cases "animations w ?key")
    case None
    with mine have other: "obj' \<noteq> obj" "?key \<noteq> ''toggle_'' @ str_of_nat obj"
      by auto
    define a where "a = (FadeAnimation obj' ''highlight'' (if state then 0 else 1)
                      (if state then 1 else 0) True)
                     \<lparr>animating := True, timer := Some 0, pending := [0], fresh := 1\<rparr>"
    have a: "target_object a = obj'"
      by (simp add: a_def FadeAnimation_def AnimationState_def)
    from animate_toggle_new_registered [OF reg None, of state] obtain w' where
      w': "animate_toggle obj' state w = Inr w'"
        "animations w' = (animations w)(?key \<mapsto> Instance (next_ref w))"
        "heap w' = (heap w)(next_ref w := a)" "next_ref w' = Suc (next_ref w)"
      and "toggles_registered w'"
      unfolding a_def by blast
    then have "toggles_registered w'"
      by simp
    moreover from assms w' other r
    have "animations w' (''toggle_'' @ str_of_nat obj) = Some (Instance r)"
      "cls (heap w' r) = Fade 0 1" "property_name (heap w' r) = ''highlight''"
      "target_object (heap w' r) = obj" "n \<le> next_ref w'"
      by (simp_all add: toggled_def)
    moreover from assms w' other a have
      "\<forall>r'. n \<le> r' \<and> r' < next_ref w' \<longrightarrow> target_object (heap w' r') \<noteq> obj"
      by (auto simp: toggled_def less_Suc_eq)
    ultimately have "toggled obj r n w'"
      by (simp add: toggled_def)
    with w'(1) show ?thesis by blast
  next
    case (Some e)
    with entries [of obj'] obtain r' where e: "e = Instance r'" and r': "r' < next_ref w"
      "max_steps (heap w r') \<noteq> 0"
      by (cases e) (auto simp: entry_ok_def)
    let ?a = "(heap w r')\<lparr>animating := True, current_step := 0,
                          timer := Some (fresh (heap w r')),
                          pending := pending (heap w r') @ [fresh (heap w r')],
                          fresh := Suc (fresh (heap w r'))\<rparr>"
    let ?w = "w\<lparr>heap := (heap w)(r' := ?a)\<rparr>"
    from Some e r' have step: "animate_toggle obj' state w = Inr ?w"
      by (simp add: animate_toggle_again)
    have "entry_ok ?w (animations ?w (''toggle_'' @ str_of_nat x))" for x
    proof (rule entry_ok_mono)
      from entries [of x] show "entry_ok w (animations ?w (''toggle_'' @ str_of_nat x))"
        by simp
    qed simp_all
    with reg have "toggles_registered ?w"
      by (simp add: toggles_registered_def)
    with assms have "toggled obj r n ?w"
      by (auto simp: toggled_def)
    with step show ?thesis by blast
  qed
qed

lemma toggled_run:
  assumes "toggled obj r n w"
  shows "\<exists>w'. toggle_run evs w = Inr w' \<and> toggled obj r n w'"
  using assms
proof (induction evs arbitrary: w)
  case Nil
  then show ?case by simp
next
  case (Cons ev evs)
  have "\<exists>w1. toggle_step ev w = Inr w1 \<and> toggled obj r n w1"
  proof (cases ev)
    case (Toggle obj' state)
    from toggled_toggle [OF Cons.prems, of obj' state] show ?thesis
      unfolding Toggle by simp
  next
    case (TimerFires r' t)
    from toggled_timer [OF Cons.prems, of r' t] show ?thesis
      unfolding TimerFires by simp
  qed
  then obtain w1 where "toggle_step ev w = Inr w1" "toggled obj r n w1"
    by blast
  with Cons.IH [of w1] show ?case
    by auto
qed

text \<open>
  C10. The name under which \<^verbatim>\<open>animate_toggle\<close> registers is built from the identity of the
  object alone. When the first call for an object has state \<open>True\<close>, it creates a fade of
  \<open>''highlight''\<close> from 0.0 to 1.0 under that name. After any later events, calls of the
  recipe for this or any other object with any state, and timers firing, the name still holds
  that animation object, still the fade from 0.0 to 1.0 on this object, and no animation
  object created since has this object as its target. One more call for the object, with
  either state, creates nothing and restarts that animation: it is animating, at step 0, with
  one more timer pending, and no other animation object is touched.
\<close>

theorem toggle_reuses_first_animation:
  assumes "toggles_registered w"
    and "animations w (''toggle_'' @ str_of_nat obj) = None"
  shows "\<exists>w1 w2. animate_toggle obj True w = Inr w1
           \<and> animations w1 (''toggle_'' @ str_of_nat obj) = Some (Instance (next_ref w))
           \<and> cls (heap w1 (next_ref w)) = Fade 0 1
           \<and> property_name (heap w1 (next_ref w)) = ''highlight''
           \<and> target_object (heap w1 (next_ref w)) = obj
           \<and> toggle_run evs w1 = Inr w2
           \<and> animations w2 (''toggle_'' @ str_of_nat obj) = Some (Instance (next_ref w))
           \<and> cls (heap w2 (next_ref w)) = Fade 0 1
           \<and> property_name (heap w2 (next_ref w)) = ''highlight''
           \<and> target_object (heap w2 (next_ref w)) = obj
           \<and> (\<forall>r'. next_ref w1 \<le> r' \<and> r' < next_ref w2
                  \<longrightarrow> target_object (heap w2 r') \<noteq> obj)
           \<and> (\<forall>state. \<exists>w3. animate_toggle obj state w2 = Inr w3
                  \<and> animations w3 = animations w2 \<and> next_ref w3 = next_ref w2
                  \<and> animating (heap w3 (next_ref w)) \<and> current_step (heap w3 (next_ref w)) = 0
                  \<and> cls (heap w3 (next_ref w)) = Fade 0 1
                  \<and> timer (heap w3 (next_ref w)) = Some (fresh (heap w2 (next_ref w)))
                  \<and> pending (heap w3 (next_ref w))
                      = pending (heap w2 (next_ref w)) @ [fresh (heap w2 (next_ref w))]
                  \<and> (\<forall>r'. r' \<noteq> next_ref w \<longrightarrow> heap w3 r' = heap w2 r'))"
proof -
  let ?key = "''toggle_'' @ str_of_nat obj"
  let ?r = "next_ref w"
  from animate_toggle_new_registered [OF assms, of True] obtain w1 where
    w1: "animate_toggle obj True w = Inr w1"
      "animations w1 = (animations w)(?key \<mapsto> Instance ?r)"
      "heap w1 = (heap w)
         (?r := (FadeAnimation obj ''highlight'' 0 1 True)
                  \<lparr>animating := True, timer := Some 0, pending := [0], fresh := 1\<rparr>)"
      "next_ref w1 = Suc ?r" "toggles_registered w1"
    by auto
  then have first: "animations w1 ?key = Some (Instance ?r)" "cls (heap w1 ?r) = Fade 0 1"
    "property_name (heap w1 ?r) = ''highlight''" "target_object (heap w1 ?r) = obj"
    by (simp_all add: FadeAnimation_def AnimationState_def)
  with w1 have "toggled obj ?r (Suc ?r) w1"
    by (simp add: toggled_def)
  from toggled_run [OF this, of evs] obtain w2 where
    w2: "toggle_run evs w1 = Inr w2" and t2: "toggled obj ?r (Suc ?r) w2"
    by blast
  from t2 have later: "animations w2 ?key = Some (Instance ?r)" "cls (heap w2 ?r) = Fade 0 1"
    "property_name (heap w2 ?r) = ''highlight''" "target_object (heap w2 ?r) = obj"
    "\<forall>r'. Suc ?r \<le> r' \<and> r' < next_ref w2 \<longrightarrow> target_object (heap w2 r') \<noteq> obj"
    and reg2: "toggles_registered w2"
    by (simp_all add: toggled_def)
  from reg2 have "entry_ok w2 (animations w2 ?key)"
    by (simp add: toggles_registered_def)
  with later(1) have m: "max_steps (heap w2 ?r) \<noteq> 0"
    by (simp add: entry_ok_def)
  have again: "\<exists>w3. animate_toggle obj state w2 = Inr w3
                  \<and> animations w3 = animations w2 \<and> next_ref w3 = next_ref w2
                  \<and> animating (heap w3 ?r) \<and> current_step (heap w3 ?r) = 0
                  \<and> cls (heap w3 ?r) = Fade 0 1
                  \<and> timer (heap w3 ?r) = Some (fresh (heap w2 ?r))
                  \<and> pending (heap w3 ?r) = pending (heap w2 ?r) @ [fresh (heap w2 ?r)]
                  \<and> (\<forall>r'. r' \<noteq> ?r \<longrightarrow> heap w3 r' = heap w2 r')" for state
    using later(2) by (simp add: animate_toggle_again [OF later(1) m])
  from w1(1,4) first w2 later again show ?thesis
    by (intro exI [of _ w1] exI [of _ w2]) simp
qed

theorem toggle_reuses_first_animation_witness:
  "toggles_registered
     (register_toggle_animations
        \<lparr>animations = Map.empty, heap = (\<lambda>r. AnimationState), next_ref = 0,
         objs = (\<lambda>obj. \<lparr>attrs = [''highlight'' \<mapsto> PFloat 0], writes = [], updates = [],
                         completions = 0\<rparr>)\<rparr>)
   \<and> animations
     (register_toggle_animations
        \<lparr>animations = Map.empty, heap = (\<lambda>r. AnimationState), next_ref = 0,
         objs = (\<lambda>obj. \<lparr>attrs = [''highlight'' \<mapsto> PFloat 0], writes = [], updates = [],
                         completions = 0\<rparr>)\<rparr>) (''toggle_'' @ str_of_nat 7) = None
   \<and> (\<exists>w1 w2 w3. animate_toggle 7 True
          (register_toggle_animations
             \<lparr>animations = Map.empty, heap = (\<lambda>r. AnimationState), next_ref = 0,
              objs = (\<lambda>obj. \<lparr>attrs = [''highlight'' \<mapsto> PFloat 0], writes = [], updates = [],
                              completions = 0\<rparr>)\<rparr>) = Inr w1
        \<and> toggle_run [Toggle 7 False, Toggle 3 False, TimerFires 0 0, Toggle 7 True] w1 = Inr w2
        \<and> animations w2 (''toggle_'' @ str_of_nat 7) = Some (Instance 0)
        \<and> cls (heap w2 0) = Fade 0 1
        \<and> animate_toggle 7 False w2 = Inr w3
        \<and> animating (heap w3 0) \<and> current_step (heap w3 0) = 0 \<and> cls (heap w3 0) = Fade 0 1)"
proof -
  let ?w = "register_toggle_animations
        \<lparr>animations = Map.empty, heap = (\<lambda>r. AnimationState), next_ref = 0,
         objs = (\<lambda>obj. \<lparr>attrs = [''highlight'' \<mapsto> PFloat 0], writes = [], updates = [],
                         completions = 0\<rparr>)\<rparr>"
  let ?evs = "[Toggle 7 False, Toggle 3 False, TimerFires 0 0, Toggle 7 True]"
  have none: "animations ?w (''toggle_'' @ str_of_nat x) = None" for x
    using toggle_name_is_no_factory_name [of x]
    by (simp add: register_toggle_animations_def add_animation_def)
  then have reg: "toggles_registered ?w"
    by (simp add: toggles_registered_def entry_ok_def register_toggle_animations_def
        add_animation_def)
  have r: "next_ref ?w = 0"
    by (simp add: register_toggle_animations_def add_animation_def)
  from toggle_reuses_first_animation [OF reg none [of 7], of ?evs, unfolded r]
  obtain w1 w2 where
    run: "animate_toggle 7 True ?w = Inr w1" "toggle_run ?evs w1 = Inr w2"
      "animations w2 (''toggle_'' @ str_of_nat 7) = Some (Instance 0)"
      "cls (heap w2 0) = Fade 0 1"
    and again: "\<forall>state. \<exists>w3. animate_toggle 7 state w2 = Inr w3
                  \<and> animations w3 = animations w2 \<and> next_ref w3 = next_ref w2
                  \<and> animating (heap w3 0) \<and> current_step (heap w3 0) = 0
                  \<and> cls (heap w3 0) = Fade 0 1
                  \<and> timer (heap w3 0) = Some (fresh (heap w2 0))
                  \<and> pending (heap w3 0) = pending (heap w2 0) @ [fresh (heap w2 0)]
                  \<and> (\<forall>r'. r' \<noteq> 0 \<longrightarrow> heap w3 r' = heap w2 r')"
    by blast
  from again have "\<exists>w3. animate_toggle 7 False w2 = Inr w3
                  \<and> animations w3 = animations w2 \<and> next_ref w3 = next_ref w2
                  \<and> animating (heap w3 0) \<and> current_step (heap w3 0) = 0
                  \<and> cls (heap w3 0) = Fade 0 1
                  \<and> timer (heap w3 0) = Some (fresh (heap w2 0))
                  \<and> pending (heap w3 0) = pending (heap w2 0) @ [fresh (heap w2 0)]
                  \<and> (\<forall>r'. r' \<noteq> 0 \<longrightarrow> heap w3 r' = heap w2 r')"
    by (rule spec)
  then obtain w3 where w3: "animate_toggle 7 False w2 = Inr w3"
    "animating (heap w3 0)" "current_step (heap w3 0) = 0" "cls (heap w3 0) = Fade 0 1"
    by (elim exE conjE)
  have "\<exists>w1 w2 w3. animate_toggle 7 True ?w = Inr w1
        \<and> toggle_run ?evs w1 = Inr w2
        \<and> animations w2 (''toggle_'' @ str_of_nat 7) = Some (Instance 0)
        \<and> cls (heap w2 0) = Fade 0 1
        \<and> animate_toggle 7 False w2 = Inr w3
        \<and> animating (heap w3 0) \<and> current_step (heap w3 0) = 0 \<and> cls (heap w3 0) = Fade 0 1"
    using run w3 by (intro exI [of _ w1] exI [of _ w2] exI [of _ w3] conjI)
  with reg none [of 7] show ?thesis
    by (intro conjI)
qed

end
